theory Spec2Isabelle
  imports Main
begin

section \<open>Strings and characters\<close>

text \<open>
  The generated text is a JavaScript string.  It is modelled as a \<open>string\<close>
  (a list of 8-bit characters), that is, as a string whose UTF-16 code units all lie in
  the Latin-1 range.  The marker of a code fence is three backticks (code unit 0x60).
\<close>

definition bt :: char where
  "bt = CHR 0x60"

definition nl :: char where
  "nl = CHR 0x0A"

definition dq :: char where
  "dq = CHR 0x22"

definition bt3 :: string where
  "bt3 = [bt, bt, bt]"

text \<open>
  \<open>\s\<close> of a regular expression and the white space that \<open>trim()\<close> removes are the
  same set of code units; below 256 these are TAB, LF, VT, FF, CR, SPACE and NBSP.
\<close>

definition is_space :: "char \<Rightarrow> bool" where
  "is_space c = (c \<in> set [CHR 0x09, CHR 0x0A, CHR 0x0B, CHR 0x0C, CHR 0x0D, CHR 0x20, CHR 0xA0])"

text \<open>\<open>\w\<close> is \<open>[A-Za-z0-9_]\<close>.\<close>

definition is_word :: "char \<Rightarrow> bool" where
  "is_word c = (c \<in> set ''abcdefghijklmnopqrstuvwxyzABCDEFGHIJKLMNOPQRSTUVWXYZ0123456789_'')"

text \<open>\<open>[a-zA-Z0-9_\-\.\/]\<close>, the characters of an inferred file name.\<close>

definition is_fname :: "char \<Rightarrow> bool" where
  "is_fname c = (c \<in> set ''abcdefghijklmnopqrstuvwxyzABCDEFGHIJKLMNOPQRSTUVWXYZ0123456789_-./'')"

text \<open>\<open>[^\*\n]\<close>, \<open>[\s:]\<close>, \<open>[^"]\<close> and \<open>[\s\S]\<close>.\<close>

definition not_star_nl :: "char \<Rightarrow> bool" where
  "not_star_nl c = (c \<noteq> CHR ''*'' \<and> c \<noteq> nl)"

definition space_or_colon :: "char \<Rightarrow> bool" where
  "space_or_colon c = (is_space c \<or> c = CHR '':'')"

definition not_dq :: "char \<Rightarrow> bool" where
  "not_dq c = (c \<noteq> dq)"

definition any_char :: "char \<Rightarrow> bool" where
  "any_char c = True"

text \<open>
  Case folding.  Under the \<open>i\<close> flag (without \<open>u\<close>) two code units match when their
  canonical forms agree; a code unit of 128 or more never canonicalises to an ASCII one,
  and every literal of the patterns below is ASCII, so folding the ASCII letters decides
  every comparison against a literal.  \<open>toLowerCase\<close> maps the ASCII capitals and the
  Latin-1 capitals (0xC0 to 0xDE except 0xD7) to the code unit 32 above.
\<close>

definition canon :: "char \<Rightarrow> char" where
  "canon c = (case map_of (zip ''abcdefghijklmnopqrstuvwxyz'' ''ABCDEFGHIJKLMNOPQRSTUVWXYZ'') c of
                Some u \<Rightarrow> u | None \<Rightarrow> c)"

definition lower_char :: "char \<Rightarrow> char" where
  "lower_char c = (case map_of (zip ''ABCDEFGHIJKLMNOPQRSTUVWXYZ'' ''abcdefghijklmnopqrstuvwxyz'') c of
                     Some l \<Rightarrow> l
                   | None \<Rightarrow> (let n = (of_char c :: nat)
                              in if 192 \<le> n \<and> n \<le> 222 \<and> n \<noteq> 215 then char_of (n + 32) else c))"

definition toLowerCase :: "string \<Rightarrow> string" where
  "toLowerCase s = map lower_char s"

definition trim :: "string \<Rightarrow> string" where
  "trim s = rev (dropWhile is_space (rev (dropWhile is_space s)))"

definition starts_with :: "string \<Rightarrow> string \<Rightarrow> bool" where
  "starts_with p s = (take (length p) s = p)"

text \<open>\<open>s.includes(p)\<close>: \<open>p\<close> occurs in \<open>s\<close> at some offset.\<close>

fun includes_str :: "string \<Rightarrow> string \<Rightarrow> bool" where
  "includes_str p [] = (p = [])"
| "includes_str p (c # cs) = (starts_with p (c # cs) \<or> includes_str p cs)"

text \<open>\<open>s.substring(a, b)\<close> for \<open>a \<le> b\<close>.\<close>

definition substring :: "string \<Rightarrow> nat \<Rightarrow> nat \<Rightarrow> string" where
  "substring s a b = take (b - a) (drop a s)"

section \<open>The backtracking matcher\<close>

text \<open>
  The regular expressions of the source use literals, character classes under a greedy
  or lazy star or a greedy plus, greedy optional groups, alternation, sequence and
  capture groups.  A match state is the text still to be read and the captures made so
  far.  \<open>ms\<close> lists every way an expression can match at the head of the text, in the
  order in which a backtracking engine tries them: the head of the list is the match
  the engine reports.
\<close>

datatype re =
    Chars string
  | StarG "char \<Rightarrow> bool"
  | PlusG "char \<Rightarrow> bool"
  | StarL "char \<Rightarrow> bool"
  | Opt re
  | Alt re re
  | Seq re re
  | Grp nat re

type_synonym caps = "nat \<Rightarrow> string option"

type_synonym mstate = "string \<times> caps"

definition ch_eq :: "bool \<Rightarrow> char \<Rightarrow> char \<Rightarrow> bool" where
  "ch_eq ci a b = (if ci then canon a = canon b else a = b)"

fun lit_match :: "bool \<Rightarrow> string \<Rightarrow> string \<Rightarrow> string option" where
  "lit_match ci [] s = Some s"
| "lit_match ci (p # ps) [] = None"
| "lit_match ci (p # ps) (c # cs) = (if ch_eq ci p c then lit_match ci ps cs else None)"

fun ms :: "bool \<Rightarrow> re \<Rightarrow> mstate \<Rightarrow> mstate list" where
  "ms ci (Chars p) (s, c) = (case lit_match ci p s of None \<Rightarrow> [] | Some s' \<Rightarrow> [(s', c)])"
| "ms ci (StarG P) (s, c) = map (\<lambda>k. (drop k s, c)) (rev [0..<Suc (length (takeWhile P s))])"
| "ms ci (PlusG P) (s, c) = map (\<lambda>k. (drop k s, c)) (rev [1..<Suc (length (takeWhile P s))])"
| "ms ci (StarL P) (s, c) = map (\<lambda>k. (drop k s, c)) [0..<Suc (length (takeWhile P s))]"
| "ms ci (Opt r) (s, c) = filter (\<lambda>(s', c'). length s' < length s) (ms ci r (s, c)) @ [(s, c)]"
| "ms ci (Alt a b) st = ms ci a st @ ms ci b st"
| "ms ci (Seq a b) st = concat (map (ms ci b) (ms ci a st))"
| "ms ci (Grp n r) (s, c) =
     map (\<lambda>(s', c'). (s', c'(n \<mapsto> take (length s - length s') s))) (ms ci r (s, c))"

text \<open>
  The leftmost match in a text: the offset at which it starts, the text after it, and its
  captures.
\<close>

fun search :: "bool \<Rightarrow> re \<Rightarrow> string \<Rightarrow> (nat \<times> string \<times> caps) option" where
  "search ci r [] = (case ms ci r ([], Map.empty) of [] \<Rightarrow> None | (s', c) # _ \<Rightarrow> Some (0, s', c))"
| "search ci r (x # xs) =
     (case ms ci r (x # xs, Map.empty) of
        (s', c) # _ \<Rightarrow> Some (0, s', c)
      | [] \<Rightarrow> (case search ci r xs of None \<Rightarrow> None | Some (i, s', c) \<Rightarrow> Some (Suc i, s', c)))"

text \<open>
  \<open>regex.exec(text)\<close> of a global expression whose \<open>lastIndex\<close> is \<open>li\<close>: the start
  of the match, its end (the new \<open>lastIndex\<close>) and its captures.
\<close>

definition exec :: "bool \<Rightarrow> re \<Rightarrow> string \<Rightarrow> nat \<Rightarrow> (nat \<times> nat \<times> caps) option" where
  "exec ci r text li =
     (if length text < li then None
      else case search ci r (drop li text) of
             None \<Rightarrow> None
           | Some (i, s', c) \<Rightarrow> Some (li + i, length text - length s', c))"

text \<open>\<open>text.match(r)\<close> of an expression without the \<open>g\<close> flag: the matched text and the captures.\<close>

definition match_first :: "bool \<Rightarrow> re \<Rightarrow> string \<Rightarrow> (string \<times> caps) option" where
  "match_first ci r text =
     (case search ci r text of
        None \<Rightarrow> None
      | Some (i, s', c) \<Rightarrow> Some (take (length text - i - length s') (drop i text), c))"

text \<open>\<open>text.replace(r, "")\<close> without the \<open>g\<close> flag removes the leftmost match only.\<close>

definition replace_first :: "bool \<Rightarrow> re \<Rightarrow> string \<Rightarrow> string" where
  "replace_first ci r text =
     (case search ci r text of None \<Rightarrow> text | Some (i, s', c) \<Rightarrow> take i text @ s')"

text \<open>
  \<open>text.replace(r, "")\<close> with the \<open>g\<close> flag removes every match, scanning from the left;
  after an empty match the scan advances by one code unit.
\<close>

function replace_all :: "bool \<Rightarrow> re \<Rightarrow> string \<Rightarrow> string" where
  "replace_all ci r text =
     (case search ci r text of
        None \<Rightarrow> text
      | Some (i, s', c) \<Rightarrow>
          if length s' < length text - i then take i text @ replace_all ci r s'
          else (case drop i text of
                  [] \<Rightarrow> take i text
                | x # xs \<Rightarrow> take i text @ x # replace_all ci r xs))"
  by pat_completeness auto
termination
proof (relation "measure (\<lambda>(ci, r, t). length t)", goal_cases)
  case 1
  show ?case by simp
next
  case (2 ci r t x2 i y s' c)
  then show ?case by simp
next
  case (3 ci r t x2 i y s' c x xs)
  then have "length (drop i t) = Suc (length xs)" by simp
  then show ?case by simp
qed

lemma exec_end_le: "exec ci r t li = Some (i, e, c) \<Longrightarrow> e \<le> length t"
  by (auto simp: exec_def split: if_splits option.splits)

section \<open>The patterns of the source\<close>

text \<open>
  \<^verbatim>\<open>/```(\w+)?\s*(?:filename="([^"]+)")?\n([\s\S]*?)```/g\<close>
\<close>

definition codeBlockRegex :: re where
  "codeBlockRegex =
     Seq (Chars bt3)
    (Seq (Opt (Grp 1 (PlusG is_word)))
    (Seq (StarG is_space)
    (Seq (Opt (Seq (Chars (''filename='' @ [dq])) (Seq (Grp 2 (PlusG not_dq)) (Chars [dq]))))
    (Seq (Chars [nl])
    (Seq (Grp 3 (StarL any_char))
         (Chars bt3))))))"

text \<open>\<^verbatim>\<open>(ts|js|json|toml|md|txt)\<close>, always the second group of a file-name pattern.\<close>

definition extRegex :: re where
  "extRegex =
     Grp 2 (Alt (Chars ''ts'') (Alt (Chars ''js'') (Alt (Chars ''json'')
           (Alt (Chars ''toml'') (Alt (Chars ''md'') (Chars ''txt''))))))"

text \<open>\<^verbatim>\<open>([a-zA-Z0-9_\-\.\/]+\.(ts|js|json|toml|md|txt))\<close>\<close>

definition fileTokenRegex :: re where
  "fileTokenRegex = Grp 1 (Seq (PlusG is_fname) (Seq (Chars ''.'') extRegex))"

text \<open>
  The four \<open>filenamePatterns\<close>, all with the \<open>i\<close> flag:
  \<^verbatim>\<open>/\*\*([^\*\n]+\.(ts|js|json|toml|md|txt))\*\*/i\<close>,
  \<^verbatim>\<open>/([a-zA-Z0-9_\-\.\/]+\.(ts|js|json|toml|md|txt)):/i\<close>,
  \<^verbatim>\<open>/(?:create|add|generate|write|save)\s+([a-zA-Z0-9_\-\.\/]+\.(ts|js|json|toml|md|txt))/i\<close>,
  \<^verbatim>\<open>/(?:file|file name|filename)[\s:]+([a-zA-Z0-9_\-\.\/]+\.(ts|js|json|toml|md|txt))/i\<close>.
\<close>

definition boldPattern :: re where
  "boldPattern =
     Seq (Chars ''**'')
    (Seq (Grp 1 (Seq (PlusG not_star_nl) (Seq (Chars ''.'') extRegex)))
         (Chars ''**''))"

definition colonPattern :: re where
  "colonPattern = Seq fileTokenRegex (Chars '':'')"

definition verbPattern :: re where
  "verbPattern =
     Seq (Alt (Chars ''create'') (Alt (Chars ''add'') (Alt (Chars ''generate'')
         (Alt (Chars ''write'') (Chars ''save'')))))
    (Seq (PlusG is_space) fileTokenRegex)"

definition labelPattern :: re where
  "labelPattern =
     Seq (Alt (Chars ''file'') (Alt (Chars ''file name'') (Chars ''filename'')))
    (Seq (PlusG space_or_colon) fileTokenRegex)"

definition filenamePatterns :: "re list" where
  "filenamePatterns = [boldPattern, colonPattern, verbPattern, labelPattern]"

text \<open>
  The patterns of the fallback: \<^verbatim>\<open>/```[\s\S]*?```/\<close>, \<^verbatim>\<open>/```\w*\n?/g\<close> and
  \<^verbatim>\<open>/```/g\<close>.
\<close>

definition fallbackRegex :: re where
  "fallbackRegex = Seq (Chars bt3) (Seq (StarL any_char) (Chars bt3))"

definition fenceOpenRegex :: re where
  "fenceOpenRegex = Seq (Chars bt3) (Seq (StarG is_word) (Opt (Chars [nl])))"

definition fenceRegex :: re where
  "fenceRegex = Chars bt3"

text \<open>
  The patterns of \<open>extractConfig\<close>: \<^verbatim>\<open>/wrangler\.toml[\s\S]*?```[\s\S]*?```/i\<close> and
  \<^verbatim>\<open>/wrangler\.toml[\s\S]*?```/i\<close>.
\<close>

definition configHeadRegex :: re where
  "configHeadRegex = Seq (Chars ''wrangler.toml'') (Seq (StarL any_char) (Chars bt3))"

definition configRegex :: re where
  "configRegex = Seq configHeadRegex (Seq (StarL any_char) (Chars bt3))"

section \<open>extractCodeBlocks\<close>

record block =
  filename :: string
  code :: string
  language :: string
  order :: nat

text \<open>
  What the source can do other than return: read a property of \<open>undefined\<close>
  (\<open>match[3].trim()\<close> when the third group did not take part in the match), or stay in
  its \<open>while (exec)\<close> loop for ever (a global expression that matches the empty string
  never advances its \<open>lastIndex\<close>).
\<close>

datatype error = TypeError | Diverges

text \<open>
  The \<open>for (const pattern of filenamePatterns)\<close> loop: the first pattern that matches
  anywhere in \<open>beforeBlock\<close> gives its first group, and the loop breaks.
\<close>

fun infer_filename :: "re list \<Rightarrow> string \<Rightarrow> string" where
  "infer_filename [] beforeBlock = []"
| "infer_filename (pattern # ps) beforeBlock =
     (case match_first True pattern beforeBlock of
        Some (m0, c) \<Rightarrow> (case c 1 of Some f \<Rightarrow> f | None \<Rightarrow> [])
      | None \<Rightarrow> infer_filename ps beforeBlock)"

text \<open>The file name of one match: lines 343 to 377 of the source.\<close>

definition block_filename :: "string \<Rightarrow> string \<Rightarrow> string \<Rightarrow> string" where
  "block_filename attr beforeBlock lang =
     (if attr \<noteq> [] then attr
      else let f1 = infer_filename filenamePatterns beforeBlock;
               f2 = (if f1 = [] \<and> (includes_str ''wrangler'' (toLowerCase beforeBlock) \<or> lang = ''toml'')
                     then ''wrangler.toml'' else f1)
           in if f2 = [] then
                (if lang = ''typescript'' \<or> lang = ''ts'' then ''src/index.ts''
                 else if lang = ''json'' then ''package.json''
                 else f2)
              else f2)"

text \<open>\<open>match[k] || default\<close>: an undefined or empty capture gives the default.\<close>

definition cap_or :: "caps \<Rightarrow> nat \<Rightarrow> string \<Rightarrow> string" where
  "cap_or c k d = (case c k of None \<Rightarrow> d | Some v \<Rightarrow> if v = [] then d else v)"

text \<open>
  The \<open>while ((match = codeBlockRegex.exec(text)) !== null)\<close> loop, from the state in
  which \<open>codeBlockRegex.lastIndex\<close> is \<open>lastIndex\<close> and \<open>order\<close> blocks have been pushed.
\<close>

function extractCodeBlocks_loop :: "string \<Rightarrow> nat \<Rightarrow> nat \<Rightarrow> error + block list" where
  "extractCodeBlocks_loop text lastIndex ord =
     (case exec False codeBlockRegex text lastIndex of
        None \<Rightarrow> Inr []
      | Some (idx, e, c) \<Rightarrow>
          (let lang = cap_or c 1 ''typescript'';
               fname = block_filename (cap_or c 2 []) (substring text 0 idx) lang
           in case c 3 of
                None \<Rightarrow> Inl TypeError
              | Some body \<Rightarrow>
                  if e \<le> lastIndex then Inl Diverges
                  else (case extractCodeBlocks_loop text e (Suc ord) of
                          Inl err \<Rightarrow> Inl err
                        | Inr bs \<Rightarrow>
                            Inr (\<lparr>filename = fname, code = trim body, language = lang, order = ord\<rparr> # bs))))"
  by pat_completeness auto
termination
proof (relation "measure (\<lambda>(t, li, k). length t - li)", goal_cases)
  case 1
  show ?case by simp
next
  case (2 t li k x2 idx y e c lang fname body)
  then have "e \<le> length t"
    using exec_end_le by metis
  with 2 show ?case by simp
qed

definition extractCodeBlocks :: "string \<Rightarrow> error + block list" where
  "extractCodeBlocks text =
     (case extractCodeBlocks_loop text 0 0 of
        Inl err \<Rightarrow> Inl err
      | Inr blocks \<Rightarrow>
          if blocks = [] \<and> includes_str bt3 text then
            (case match_first False fallbackRegex text of
               Some (m0, c) \<Rightarrow>
                 Inr [\<lparr>filename = ''src/index.ts'',
                       code = trim (replace_all False fenceRegex (replace_all False fenceOpenRegex m0)),
                       language = ''typescript'',
                       order = 0\<rparr>]
             | None \<Rightarrow> Inr blocks)
          else Inr blocks)"

section \<open>extractConfig\<close>

definition extractConfig :: "string \<Rightarrow> string option" where
  "extractConfig text =
     (case match_first True configRegex text of
        Some (m0, c) \<Rightarrow> Some (trim (replace_all False fenceRegex (replace_first True configHeadRegex m0)))
      | None \<Rightarrow> None)"

section \<open>preserveOrderedContent\<close>

datatype part = TextPart string | CodePart nat

text \<open>
  The \<open>while\<close> loop of \<open>preserveOrderedContent\<close>, for \<open>n\<close> code blocks.  The local
  variable \<open>lastIndex\<close> and \<open>codeBlockRegex.lastIndex\<close> are both the end of the last
  match (0 at the start), so one argument stands for both.  The result is the parts
  pushed and the final \<open>lastIndex\<close>.
\<close>

function preserve_loop :: "string \<Rightarrow> nat \<Rightarrow> nat \<Rightarrow> nat \<Rightarrow> error + (part list \<times> nat)" where
  "preserve_loop text n lastIndex codeIndex =
     (case exec False codeBlockRegex text lastIndex of
        None \<Rightarrow> Inr ([], lastIndex)
      | Some (idx, e, c) \<Rightarrow>
          (let textBefore = trim (substring text lastIndex idx);
               p1 = (if lastIndex < idx \<and> textBefore \<noteq> [] then [TextPart textBefore] else []);
               p2 = (if codeIndex < n then [CodePart codeIndex] else []);
               codeIndex' = (if codeIndex < n then Suc codeIndex else codeIndex)
           in if e \<le> lastIndex then Inl Diverges
              else (case preserve_loop text n e codeIndex' of
                      Inl err \<Rightarrow> Inl err
                    | Inr (ps, li) \<Rightarrow> Inr (p1 @ p2 @ ps, li))))"
  by pat_completeness auto
termination
proof (relation "measure (\<lambda>(t, n, li, k). length t - li)", goal_cases)
  case 1
  show ?case by simp
next
  case (2 t n li k x2 idx y e c textBefore p1 p2 k')
  then have "e \<le> length t"
    using exec_end_le by metis
  with 2 show ?case by simp
qed

text \<open>The reconstruction loop over \<open>parts\<close>; \<open>i < parts.length - 1\<close> is "more parts follow".\<close>

fun render :: "block list \<Rightarrow> part list \<Rightarrow> string" where
  "render bs [] = []"
| "render bs (TextPart t # rest) =
     t @ (case rest of
            [] \<Rightarrow> []
          | CodePart k # _ \<Rightarrow> [nl, nl]
          | TextPart u # _ \<Rightarrow> [nl, nl])
       @ render bs rest"
| "render bs (CodePart k # rest) =
     (if k < length bs then
        (let b = bs ! k;
             fname = (if filename b = [] then ''File'' else filename b)
         in (if fname \<noteq> [] \<and> fname \<noteq> ''File'' \<and> fname \<noteq> ''src/index.ts''
             then ''**'' @ fname @ ''**'' @ [nl, nl] else [])
            @ bt3 @ language b @ [nl] @ code b @ [nl] @ bt3
            @ (if rest \<noteq> [] then [nl, nl] else []))
      else [])
     @ render bs rest"

definition preserveOrderedContent :: "string \<Rightarrow> block list \<Rightarrow> error + string" where
  "preserveOrderedContent text codeBlocks =
     (if codeBlocks = [] then Inr (trim text)
      else case preserve_loop text (length codeBlocks) 0 0 of
             Inl err \<Rightarrow> Inl err
           | Inr (ps, lastIndex) \<Rightarrow>
               (let remainingText = trim (drop lastIndex text);
                    parts = ps @ (if lastIndex < length text \<and> remainingText \<noteq> []
                                  then [TextPart remainingText] else [])
                in Inr (trim (render codeBlocks parts))))"

section \<open>The extraction as its callers run it\<close>

text \<open>
  Both callers compute \<open>extractCodeBlocks\<close>, \<open>extractConfig\<close> and then
  \<open>preserveOrderedContent\<close> of the same generated text and send the three results.
\<close>

record extraction =
  artifacts :: "block list"
  configText :: "string option"
  explanation :: string

definition extract_text :: "string \<Rightarrow> error + extraction" where
  "extract_text text =
     (case extractCodeBlocks text of
        Inl err \<Rightarrow> Inl err
      | Inr codeBlocks \<Rightarrow>
          (let config = extractConfig text
           in case preserveOrderedContent text codeBlocks of
                Inl err \<Rightarrow> Inl err
              | Inr expl \<Rightarrow>
                  Inr \<lparr>artifacts = codeBlocks, configText = config, explanation = expl\<rparr>))"

section \<open>Facts about the matcher\<close>

lemma lit_match_cs: "lit_match False p s = Some s' \<longleftrightarrow> s = p @ s'"
proof (induction p arbitrary: s)
  case Nil
  then show ?case by auto
next
  case (Cons a p)
  then show ?case by (cases s) (auto simp: ch_eq_def)
qed

lemma lit_match_length: "lit_match ci p s = Some s' \<Longrightarrow> length s = length p + length s'"
  by (induction ci p s rule: lit_match.induct) (auto split: if_splits)

lemma lit_match_suffix: "lit_match ci p s = Some s' \<Longrightarrow> s' = drop (length p) s"
  by (induction ci p s rule: lit_match.induct) (auto split: if_splits)

lemma canon_bt: "canon c = bt \<longleftrightarrow> c = bt"
  by (auto simp: canon_def bt_def split: option.splits if_splits)

lemma ch_eq_bt: "ch_eq ci bt c \<longleftrightarrow> c = bt"
  using canon_bt[of c] canon_bt[of bt] by (auto simp: ch_eq_def)

lemma lit_match_bt3: "lit_match ci bt3 s = Some s' \<longleftrightarrow> s = bt3 @ s'"
proof (cases s)
  case Nil
  then show ?thesis by (simp add: bt3_def)
next
  case (Cons a s1)
  show ?thesis
  proof (cases s1)
    case Nil
    with Cons show ?thesis by (simp add: bt3_def ch_eq_bt)
  next
    case (Cons b s2)
    note c2 = this
    show ?thesis
    proof (cases s2)
      case Nil
      with c2 \<open>s = a # s1\<close> show ?thesis by (simp add: bt3_def ch_eq_bt)
    next
      case (Cons d s3)
      with c2 \<open>s = a # s1\<close> show ?thesis by (auto simp add: bt3_def ch_eq_bt)
    qed
  qed
qed

lemma drop_suffix_ex: "\<exists>u. s = u @ drop k s"
  by (metis append_take_drop_id)

lemma ms_suffix: "(s', c') \<in> set (ms ci r (s, c)) \<Longrightarrow> \<exists>u. s = u @ s'"
proof (induction r arbitrary: s c s' c')
  case (Chars p)
  then have "lit_match ci p s = Some s'" by (auto split: option.splits)
  then have "s' = drop (length p) s" by (rule lit_match_suffix)
  then show ?case by (simp add: drop_suffix_ex)
next
  case (StarG P)
  then show ?case by (auto simp: drop_suffix_ex)
next
  case (PlusG P)
  then show ?case by (auto simp: drop_suffix_ex)
next
  case (StarL P)
  then show ?case by (auto simp: drop_suffix_ex)
next
  case (Opt r)
  then show ?case by auto
next
  case (Alt a b)
  then show ?case by auto
next
  case (Seq a b)
  from Seq.prems obtain s1 c1 where
    m1: "(s1, c1) \<in> set (ms ci a (s, c))" and m2: "(s', c') \<in> set (ms ci b (s1, c1))"
    by auto
  from Seq.IH(1)[OF m1] Seq.IH(2)[OF m2] show ?case by auto
next
  case (Grp n r)
  then show ?case by auto
qed


lemma includes_str_iff: "includes_str p s \<longleftrightarrow> (\<exists>i\<le>length s. starts_with p (drop i s))"
proof (induction s)
  case Nil
  then show ?case by (auto simp: starts_with_def)
next
  case (Cons a s)
  show ?case
  proof
    assume "includes_str p (a # s)"
    then consider "starts_with p (a # s)" | "includes_str p s" by auto
    then show "\<exists>i\<le>length (a # s). starts_with p (drop i (a # s))"
    proof cases
      case 1
      then show ?thesis by (intro exI[of _ 0]) simp
    next
      case 2
      with Cons obtain i where "i \<le> length s" "starts_with p (drop i s)" by auto
      then show ?thesis by (intro exI[of _ "Suc i"]) simp
    qed
  next
    assume "\<exists>i\<le>length (a # s). starts_with p (drop i (a # s))"
    then obtain i where i: "i \<le> length (a # s)" "starts_with p (drop i (a # s))" by auto
    show "includes_str p (a # s)"
    proof (cases i)
      case 0
      with i show ?thesis by simp
    next
      case (Suc j)
      with i Cons show ?thesis by auto
    qed
  qed
qed

lemma includes_str_append: "includes_str p (u @ p @ v)"
  by (induction u) (auto simp: starts_with_def includes_str_iff intro: exI[of _ 0])

lemma search_None_iff:
  "search ci r s = None \<longleftrightarrow> (\<forall>i\<le>length s. ms ci r (drop i s, Map.empty) = [])"
proof (induction s)
  case Nil
  then show ?case by (auto split: list.splits)
next
  case (Cons a s)
  have "(\<forall>i\<le>length (a # s). ms ci r (drop i (a # s), Map.empty) = []) \<longleftrightarrow>
        ms ci r (a # s, Map.empty) = [] \<and> (\<forall>j\<le>length s. ms ci r (drop j s, Map.empty) = [])"
    (is "?L \<longleftrightarrow> ?R")
  proof
    assume l: ?L
    have "ms ci r (a # s, Map.empty) = []" using l[rule_format, of 0] by simp
    moreover have "ms ci r (drop j s, Map.empty) = []" if "j \<le> length s" for j
      using l[rule_format, of "Suc j"] that by simp
    ultimately show ?R by simp
  next
    assume r: ?R
    show ?L
    proof (intro allI impI)
      fix i assume "i \<le> length (a # s)"
      then show "ms ci r (drop i (a # s), Map.empty) = []" using r by (cases i) auto
    qed
  qed
  with Cons show ?case by (auto split: list.splits option.splits)
qed

lemma search_Some:
  assumes "search ci r s = Some (i, s', c)"
  shows "i \<le> length s \<and> (\<exists>rest. ms ci r (drop i s, Map.empty) = (s', c) # rest)
         \<and> (\<forall>j<i. ms ci r (drop j s, Map.empty) = [])"
  using assms
proof (induction s arbitrary: i)
  case Nil
  then show ?case by (auto split: list.splits)
next
  case (Cons a s)
  show ?case
  proof (cases "ms ci r (a # s, Map.empty)")
    case Nil
    with Cons.prems obtain j where j: "search ci r s = Some (j, s', c)" "i = Suc j"
      by (auto split: option.splits)
    from Cons.IH[OF j(1)] Nil j(2) show ?thesis
      by (auto simp: less_Suc_eq_0_disj)
  next
    case (Cons x xs)
    with Cons.prems show ?thesis by (auto split: prod.splits)
  qed
qed

lemma ms_Chars_mem:
  "(s', c') \<in> set (ms ci (Chars p) (s, c)) \<longleftrightarrow> lit_match ci p s = Some s' \<and> c' = c"
  by (cases "lit_match ci p s") auto

lemma ms_Seq_mem: "x \<in> set (ms ci (Seq a b) st) \<longleftrightarrow> (\<exists>y\<in>set (ms ci a st). x \<in> set (ms ci b y))"
  by simp

lemma ms_fence_head:
  assumes "ms ci (Seq (Chars bt3) r) (s, c) \<noteq> []"
  shows "starts_with bt3 s"
proof -
  from assms have "lit_match ci bt3 s \<noteq> None"
    by (cases "lit_match ci bt3 s") auto
  then obtain s1 where "lit_match ci bt3 s = Some s1" by auto
  then have "s = bt3 @ s1" by (simp add: lit_match_bt3)
  then show ?thesis by (simp add: starts_with_def)
qed

lemma search_fence_None:
  assumes "\<not> includes_str bt3 s"
  shows "search ci (Seq (Chars bt3) r) (drop k s) = None"
proof -
  have "ms ci (Seq (Chars bt3) r) (drop i (drop k s), Map.empty) = []" for i
  proof (rule ccontr)
    assume "ms ci (Seq (Chars bt3) r) (drop i (drop k s), Map.empty) \<noteq> []"
    then have sw: "starts_with bt3 (drop (i + k) s)" using ms_fence_head by (simp add: add.commute)
    have "i + k \<le> length s"
    proof (rule ccontr)
      assume "\<not> i + k \<le> length s"
      then have "drop (i + k) s = []" by simp
      with sw show False by (simp add: starts_with_def bt3_def)
    qed
    with sw assms show False by (auto simp: includes_str_iff)
  qed
  then show ?thesis by (simp add: search_None_iff)
qed

section \<open>Text without a fence marker\<close>

declare extractCodeBlocks_loop.simps [simp del]
declare preserve_loop.simps [simp del]
declare replace_all.simps [simp del]

lemma loop_no_fence:
  assumes "\<not> includes_str bt3 t"
  shows "extractCodeBlocks_loop t li k = Inr []"
proof -
  have "exec False codeBlockRegex t li = None"
    using search_fence_None[OF assms] by (simp add: exec_def codeBlockRegex_def)
  then show ?thesis by (subst extractCodeBlocks_loop.simps) simp
qed

lemma extractCodeBlocks_no_fence:
  assumes "\<not> includes_str bt3 t"
  shows "extractCodeBlocks t = Inr []"
  using assms by (simp add: extractCodeBlocks_def loop_no_fence)

lemma config_match_includes:
  assumes "(s', c') \<in> set (ms True configRegex (s, c))"
  shows "includes_str bt3 s"
proof -
  from assms obtain y where
    a0: "y \<in> set (ms True configHeadRegex (s, c))" and
    b0: "(s', c') \<in> set (ms True (Seq (StarL any_char) (Chars bt3)) y)"
    unfolding configRegex_def by (auto simp: ms_Seq_mem)
  obtain s1 c1 where y: "y = (s1, c1)" by (cases y)
  from b0 obtain z where
    b1: "z \<in> set (ms True (StarL any_char) (s1, c1))" and
    d0: "(s', c') \<in> set (ms True (Chars bt3) z)"
    unfolding y ms_Seq_mem by blast
  obtain s2 c2 where z: "z = (s2, c2)" by (cases z)
  note a = a0[unfolded y] and b = b1[unfolded z] and d = d0[unfolded z]
  from d have "s2 = bt3 @ s'" by (simp only: ms_Chars_mem lit_match_bt3)
  moreover from ms_suffix[OF b] obtain u where "s1 = u @ s2" by auto
  moreover from ms_suffix[OF a] obtain v where "s = v @ s1" by auto
  ultimately have "s = (v @ u) @ bt3 @ s'" by simp
  then show ?thesis using includes_str_append by metis
qed

lemma extractConfig_no_fence:
  assumes "\<not> includes_str bt3 t"
  shows "extractConfig t = None"
proof -
  have "search True configRegex t = None"
  proof (rule ccontr)
    assume "search True configRegex t \<noteq> None"
    then obtain i s' c where "search True configRegex t = Some (i, s', c)" by auto
    from search_Some[OF this] have
      i: "i \<le> length t" and m: "(s', c) \<in> set (ms True configRegex (drop i t, Map.empty))"
      by auto
    from config_match_includes[OF m] have "includes_str bt3 (drop i t)" .
    then obtain j where "j \<le> length (drop i t)" "starts_with bt3 (drop j (drop i t))"
      by (auto simp: includes_str_iff)
    then have "j + i \<le> length t" "starts_with bt3 (drop (j + i) t)" using i by auto
    with assms show False by (auto simp: includes_str_iff)
  qed
  then show ?thesis by (simp add: extractConfig_def match_first_def)
qed

text \<open>
  Claim C1.  When the text contains no fence marker (three backticks occur nowhere in it),
  the extraction returns no artifacts, the text trimmed of outer white space as the
  explanation, and no configuration text.
\<close>

theorem no_fence_extract:
  assumes "\<not> includes_str bt3 t"
  shows "extract_text t = Inr \<lparr>artifacts = [], configText = None, explanation = trim t\<rparr>"
  using assms
  by (simp add: extract_text_def extractCodeBlocks_no_fence extractConfig_no_fence
      preserveOrderedContent_def)

theorem no_fence_extract_witness:
  "\<not> includes_str bt3 ''  plain words  '' \<and>
   extract_text ''  plain words  '' =
     Inr \<lparr>artifacts = [], configText = None, explanation = ''plain words''\<rparr>"
proof -
  have h: "\<not> includes_str bt3 ''  plain words  ''"
    by (simp add: bt3_def bt_def starts_with_def)
  have t: "trim ''  plain words  '' = ''plain words''"
    by (simp add: trim_def is_space_def)
  from no_fence_extract[OF h] h t show ?thesis by simp
qed

section \<open>The imperative-verb rule on a concrete text\<close>

text \<open>
  Claim C8.  For the text \<^verbatim>\<open>Create config.toml\<close>, a newline, and a fenced \<open>toml\<close> block
  holding \<^verbatim>\<open>name="x"\<close>, the extraction returns one artifact, named \<open>config.toml\<close>.
  The name comes from the imperative-verb pattern: the two patterns tried before it do not
  match the text before the fence, and the first group of the verb pattern is
  \<open>config.toml\<close>; it is neither of the defaults \<open>wrangler.toml\<close> and \<open>src/index.ts\<close>.
\<close>

theorem create_config_toml:
  "extractCodeBlocks (''Create config.toml'' @ [nl] @ bt3 @ ''toml'' @ [nl] @ ''name='' @ [dq] @ ''x'' @ [dq] @ [nl] @ bt3)
     = Inr [\<lparr>filename = ''config.toml'', code = ''name='' @ [dq] @ ''x'' @ [dq],
             language = ''toml'', order = 0\<rparr>]
   \<and> map_sum id (\<lambda>r. map filename (artifacts r))
        (extract_text (''Create config.toml'' @ [nl] @ bt3 @ ''toml'' @ [nl] @ ''name='' @ [dq] @ ''x'' @ [dq] @ [nl] @ bt3))
     = Inr [''config.toml'']
   \<and> match_first True boldPattern (''Create config.toml'' @ [nl]) = None
   \<and> match_first True colonPattern (''Create config.toml'' @ [nl]) = None
   \<and> (case match_first True verbPattern (''Create config.toml'' @ [nl]) of
        None \<Rightarrow> None | Some (m, c) \<Rightarrow> c 1) = Some ''config.toml''"
  by code_simp

section \<open>Every match of the fence pattern advances and sets its third group\<close>

lemma ms_Grp_mem:
  "(s', c') \<in> set (ms ci (Grp n r) (s, c)) \<longleftrightarrow>
     (\<exists>c0. (s', c0) \<in> set (ms ci r (s, c)) \<and> c' = c0(n \<mapsto> take (length s - length s') s))"
  by auto

lemma ms_Grp_set: "(s', c') \<in> set (ms ci (Grp n r) st) \<Longrightarrow> c' n \<noteq> None"
  by (cases st) auto

lemma codeBlock_match_shape:
  assumes "(s', c') \<in> set (ms ci codeBlockRegex (s, c))"
  shows "c' 3 \<noteq> None \<and> (\<exists>u. s = bt3 @ u @ bt3 @ s')"
proof -
  define tail where "tail = Seq (Chars [nl]) (Seq (Grp 3 (StarL any_char)) (Chars bt3))"
  define mid where "mid = Seq (Opt (Grp 1 (PlusG is_word))) (Seq (StarG is_space)
    (Seq (Opt (Seq (Chars (''filename='' @ [dq])) (Seq (Grp 2 (PlusG not_dq)) (Chars [dq])))) tail))"
  have re: "codeBlockRegex = Seq (Chars bt3) mid"
    by (simp add: codeBlockRegex_def mid_def tail_def)
  from assms obtain y1 where y1: "y1 \<in> set (ms ci (Chars bt3) (s, c))"
    and m1: "(s', c') \<in> set (ms ci mid y1)"
    unfolding re ms_Seq_mem by blast
  obtain s1 c1 where y1e: "y1 = (s1, c1)" by (cases y1)
  from y1 have s1: "s = bt3 @ s1" unfolding y1e by (simp only: ms_Chars_mem lit_match_bt3)
  from m1 obtain y2 y3 y4 where "y2 \<in> set (ms ci (Opt (Grp 1 (PlusG is_word))) y1)"
    "y3 \<in> set (ms ci (StarG is_space) y2)"
    "y4 \<in> set (ms ci (Opt (Seq (Chars (''filename='' @ [dq])) (Seq (Grp 2 (PlusG not_dq)) (Chars [dq])))) y3)"
    and m4: "(s', c') \<in> set (ms ci tail y4)"
    unfolding mid_def ms_Seq_mem by blast
  from m4 obtain y5 y6 where "y5 \<in> set (ms ci (Chars [nl]) y4)"
    and y6: "y6 \<in> set (ms ci (Grp 3 (StarL any_char)) y5)"
    and m6: "(s', c') \<in> set (ms ci (Chars bt3) y6)"
    unfolding tail_def ms_Seq_mem by blast
  obtain s6 c6 where y6e: "y6 = (s6, c6)" by (cases y6)
  from m6 have e6: "s6 = bt3 @ s'" "c' = c6"
    unfolding y6e by (simp_all only: ms_Chars_mem lit_match_bt3)
  from y6 have "c6 3 \<noteq> None" unfolding y6e by (rule ms_Grp_set)
  moreover
  have "(s6, c6) \<in> set (ms ci (Seq (Opt (Grp 1 (PlusG is_word))) (Seq (StarG is_space)
    (Seq (Opt (Seq (Chars (''filename='' @ [dq])) (Seq (Grp 2 (PlusG not_dq)) (Chars [dq]))))
    (Seq (Chars [nl]) (Grp 3 (StarL any_char)))))) (s1, c1))"
    using \<open>y2 \<in> _\<close> \<open>y3 \<in> _\<close> \<open>y4 \<in> _\<close> \<open>y5 \<in> _\<close> y6
    unfolding ms_Seq_mem y1e y6e by blast
  from ms_suffix[OF this] obtain u where "s1 = u @ s6" by auto
  ultimately show ?thesis using s1 e6 by auto
qed

lemma exec_codeBlock:
  assumes "exec ci codeBlockRegex t li = Some (idx, e, c)"
  shows "c 3 \<noteq> None \<and> li \<le> idx \<and> idx + 6 \<le> e \<and> e \<le> length t"
proof -
  from assms have li: "li \<le> length t" by (auto simp: exec_def split: if_splits)
  from assms obtain i s' where
    sr: "search ci codeBlockRegex (drop li t) = Some (i, s', c)" and
    idx: "idx = li + i" and e: "e = length t - length s'"
    by (auto simp: exec_def split: if_splits option.splits)
  from search_Some[OF sr] have
    i: "i \<le> length (drop li t)" and
    m: "(s', c) \<in> set (ms ci codeBlockRegex (drop (li + i) t, Map.empty))"
    by (auto simp: add.commute)
  from codeBlock_match_shape[OF m] obtain u where
    c3: "c 3 \<noteq> None" and sh: "drop (li + i) t = bt3 @ u @ bt3 @ s'" by auto
  from sh have "length (drop (li + i) t) = 6 + length u + length s'"
    by (simp add: bt3_def)
  then have "length t - (li + i) = 6 + length u + length s'" by simp
  with c3 idx e show ?thesis by auto
qed

lemma extractCodeBlocks_loop_total: "\<exists>bs. extractCodeBlocks_loop t li k = Inr bs"
proof (induction t li k rule: extractCodeBlocks_loop.induct)
  case (1 t li k)
  show ?case
  proof (cases "exec False codeBlockRegex t li")
    case None
    then show ?thesis by (subst extractCodeBlocks_loop.simps) simp
  next
    case (Some m)
    obtain idx e c where m: "m = (idx, e, c)" by (cases m)
    from exec_codeBlock[OF Some[unfolded m]] obtain body where
      b: "c 3 = Some body" and adv: "\<not> e \<le> li" by auto
    from "1.IH"[OF Some[unfolded m] refl refl refl refl b adv] obtain bs where
      "extractCodeBlocks_loop t e (Suc k) = Inr bs" by auto
    with Some m b adv show ?thesis
      by (subst extractCodeBlocks_loop.simps) (simp add: Let_def)
  qed
qed

lemma preserve_loop_total: "\<exists>ps li'. preserve_loop t n li k = Inr (ps, li')"
proof (induction t n li k rule: preserve_loop.induct)
  case (1 t n li k)
  show ?case
  proof (cases "exec False codeBlockRegex t li")
    case None
    then show ?thesis by (subst preserve_loop.simps) simp
  next
    case (Some m)
    obtain idx e c where m: "m = (idx, e, c)" by (cases m)
    from exec_codeBlock[OF Some[unfolded m]] have adv: "\<not> e \<le> li" by auto
    from "1.IH"[OF Some[unfolded m] refl refl refl refl refl refl adv] obtain ps li' where
      "preserve_loop t n e (if k < n then Suc k else k) = Inr (ps, li')" by auto
    with Some m adv show ?thesis
      by (subst preserve_loop.simps) (simp add: Let_def)
  qed
qed

lemma extractCodeBlocks_total: "\<exists>bs. extractCodeBlocks t = Inr bs"
proof -
  obtain bs where "extractCodeBlocks_loop t 0 0 = Inr bs"
    using extractCodeBlocks_loop_total by blast
  then show ?thesis
    by (auto simp: extractCodeBlocks_def split: option.splits)
qed

lemma preserveOrderedContent_total: "\<exists>x. preserveOrderedContent t bs = Inr x"
proof -
  obtain ps li' where "preserve_loop t (length bs) 0 0 = Inr (ps, li')"
    using preserve_loop_total by blast
  then show ?thesis
    by (auto simp: preserveOrderedContent_def Let_def)
qed

text \<open>
  Claim C4.  On every text (the empty one, white space only, any number of markers, a
  single opening marker) \<open>extractCodeBlocks\<close>, \<open>preserveOrderedContent\<close> and the whole
  extraction return a result: the error branches of the model (reading a group that did
  not take part in a match, a scan that does not advance) are never taken.
  \<open>extractConfig\<close> has no such branch: its result is a value of \<open>string option\<close>.
\<close>

theorem extraction_total:
  "(\<exists>bs. extractCodeBlocks t = Inr bs)
   \<and> (\<exists>x. preserveOrderedContent t cbs = Inr x)
   \<and> (\<exists>r. extract_text t = Inr r \<and> configText r = extractConfig t)"
proof -
  obtain bs where bs: "extractCodeBlocks t = Inr bs"
    using extractCodeBlocks_total by blast
  obtain x where "preserveOrderedContent t bs = Inr x"
    using preserveOrderedContent_total by blast
  with bs have "\<exists>r. extract_text t = Inr r \<and> configText r = extractConfig t"
    by (simp add: extract_text_def)
  with bs preserveOrderedContent_total show ?thesis by blast
qed

section \<open>Facts about trimming\<close>

lemma trim_Nil [simp]: "trim [] = []"
  by (simp add: trim_def)

lemma trim_fixed:
  assumes "s = [] \<or> (\<not> is_space (hd s) \<and> \<not> is_space (last s))"
  shows "trim s = s"
proof (cases "s = []")
  case True
  then show ?thesis by simp
next
  case False
  with assms have h: "\<not> is_space (hd s)" and l: "\<not> is_space (last s)" by auto
  from h False have "dropWhile is_space s = s" by (simp add: dropWhile_eq_self_iff)
  moreover from l False have "dropWhile is_space (rev s) = rev s"
    by (simp add: dropWhile_eq_self_iff hd_rev)
  ultimately show ?thesis by (simp add: trim_def)
qed

lemma trim_ends: "trim s = [] \<or> (\<not> is_space (hd (trim s)) \<and> \<not> is_space (last (trim s)))"
proof (cases "trim s = []")
  case True
  then show ?thesis by simp
next
  case False
  define a where "a = dropWhile is_space s"
  define r where "r = dropWhile is_space (rev a)"
  have t: "trim s = rev r" by (simp add: trim_def a_def r_def)
  with False have rne: "r \<noteq> []" by simp
  then have "\<not> is_space (hd r)" unfolding r_def by (rule hd_dropWhile)
  then have l: "\<not> is_space (last (trim s))" using rne by (simp add: t last_rev)
  have "rev a = takeWhile is_space (rev a) @ r" by (simp add: r_def)
  then have "a = rev r @ rev (takeWhile is_space (rev a))"
    by (metis rev_append rev_rev_ident)
  then have "hd a = hd (rev r)" using rne by (metis hd_append2 rev_is_Nil_conv)
  moreover have "a \<noteq> []" using rne r_def by auto
  then have "\<not> is_space (hd a)" unfolding a_def by (rule hd_dropWhile)
  ultimately have "\<not> is_space (hd (trim s))" by (simp add: t)
  with l show ?thesis by simp
qed

lemma trim_idem [simp]: "trim (trim s) = trim s"
  using trim_ends[of s] by (rule trim_fixed)

lemma trim_eq_Nil: "trim s = [] \<longleftrightarrow> (\<forall>x\<in>set s. is_space x)"
proof
  assume "trim s = []"
  then have a: "\<forall>x\<in>set (dropWhile is_space s). is_space x" by (simp add: trim_def)
  have "dropWhile is_space s = []"
  proof (rule ccontr)
    assume ne: "dropWhile is_space s \<noteq> []"
    then have "\<not> is_space (hd (dropWhile is_space s))" by (rule hd_dropWhile)
    moreover have "hd (dropWhile is_space s) \<in> set (dropWhile is_space s)" using ne by simp
    ultimately show False using a by blast
  qed
  then show "\<forall>x\<in>set s. is_space x" by simp
next
  assume "\<forall>x\<in>set s. is_space x"
  then show "trim s = []" by (auto simp: trim_def dest: set_dropWhileD)
qed

section \<open>The explanation when only the fallback found a block\<close>

lemma loop_Nil_exec:
  assumes "extractCodeBlocks_loop t li k = Inr []"
  shows "exec False codeBlockRegex t li = None"
proof (rule ccontr)
  assume "exec False codeBlockRegex t li \<noteq> None"
  then obtain idx e c where "exec False codeBlockRegex t li = Some (idx, e, c)" by auto
  with assms show False
    by (subst (asm) extractCodeBlocks_loop.simps)
       (auto simp: Let_def split: option.splits if_splits sum.splits)
qed

lemma bt_not_space: "\<not> is_space bt"
  by (simp add: is_space_def bt_def)

lemma includes_bt3_set:
  assumes "includes_str bt3 t"
  shows "bt \<in> set t"
proof -
  from assms obtain i where "i \<le> length t" "starts_with bt3 (drop i t)"
    by (auto simp: includes_str_iff)
  then have "take (length bt3) (drop i t) = bt3" by (simp add: starts_with_def)
  moreover have "bt \<in> set bt3" by (simp add: bt3_def)
  ultimately have "bt \<in> set (take (length bt3) (drop i t))" by simp
  then show ?thesis by (meson in_set_dropD in_set_takeD)
qed

lemma preserve_fallback:
  assumes scan: "extractCodeBlocks_loop t 0 0 = Inr []"
    and marker: "includes_str bt3 t"
    and blocks: "bs \<noteq> []"
  shows "preserveOrderedContent t bs = Inr (trim t)"
proof -
  have ex: "exec False codeBlockRegex t 0 = None" using scan by (rule loop_Nil_exec)
  then have pl: "preserve_loop t (length bs) 0 0 = Inr ([], 0)"
    by (subst preserve_loop.simps) simp
  from marker have "bt \<in> set t" by (rule includes_bt3_set)
  then have ne: "trim t \<noteq> []" and len: "0 < length t"
    using bt_not_space by (auto simp: trim_eq_Nil)
  from pl ne len blocks show ?thesis
    by (simp add: preserveOrderedContent_def Let_def)
qed

text \<open>
  Claim C10.  When the scan for well-formed fences finds nothing and the fallback
  supplies the one artifact (the text contains a marker and the fallback pattern
  matches), the explanation is the text trimmed of outer white space: the markers stay
  in it as written, and no file-name header or rebuilt fence is emitted.
\<close>

theorem fallback_explanation:
  assumes "extractCodeBlocks_loop t 0 0 = Inr []"
    and "includes_str bt3 t"
    and "match_first False fallbackRegex t = Some (m0, c)"
  shows "\<exists>b. extractCodeBlocks t = Inr [b] \<and> preserveOrderedContent t [b] = Inr (trim t)
           \<and> extract_text t = Inr \<lparr>artifacts = [b], configText = extractConfig t,
                                    explanation = trim t\<rparr>"
proof -
  define b where "b = \<lparr>filename = ''src/index.ts'',
       code = trim (replace_all False fenceRegex (replace_all False fenceOpenRegex m0)),
       language = ''typescript'', order = 0\<rparr>"
  have e: "extractCodeBlocks t = Inr [b]"
    using assms by (simp add: extractCodeBlocks_def b_def)
  have p: "preserveOrderedContent t [b] = Inr (trim t)"
    using assms(1,2) by (rule preserve_fallback) simp
  from e p show ?thesis by (auto simp: extract_text_def)
qed

theorem fallback_explanation_witness:
  "extractCodeBlocks_loop (''x '' @ bt3 @ ''ts code'' @ bt3 @ '' '') 0 0 = Inr []
   \<and> includes_str bt3 (''x '' @ bt3 @ ''ts code'' @ bt3 @ '' '')
   \<and> map_option fst (match_first False fallbackRegex (''x '' @ bt3 @ ''ts code'' @ bt3 @ '' ''))
       = Some (bt3 @ ''ts code'' @ bt3)
   \<and> map_sum id explanation (extract_text (''x '' @ bt3 @ ''ts code'' @ bt3 @ '' ''))
       = Inr (''x '' @ bt3 @ ''ts code'' @ bt3)"
proof -
  define t where "t = ''x '' @ bt3 @ ''ts code'' @ bt3 @ '' ''"
  have h1: "extractCodeBlocks_loop t 0 0 = Inr []" unfolding t_def by code_simp
  have h2: "includes_str bt3 t" unfolding t_def by code_simp
  have h3: "map_option fst (match_first False fallbackRegex t) = Some (bt3 @ ''ts code'' @ bt3)"
    unfolding t_def by code_simp
  then obtain m0 c where h3': "match_first False fallbackRegex t = Some (m0, c)" by auto
  have tr: "trim t = ''x '' @ bt3 @ ''ts code'' @ bt3" unfolding t_def by code_simp
  from fallback_explanation[OF h1 h2 h3'] tr
  have "map_sum id explanation (extract_text t) = Inr (''x '' @ bt3 @ ''ts code'' @ bt3)"
    by auto
  with h1 h2 h3 show ?thesis unfolding t_def by blast
qed

section \<open>The successive matches of the fence pattern\<close>

text \<open>
  Both loops of the source call \<open>codeBlockRegex.exec(text)\<close> until it returns \<open>null\<close>.
  \<open>fence_matches\<close> is the sequence of matches these calls return from a given
  \<open>lastIndex\<close>: start offset, end offset and captures of each.
\<close>

function fence_matches :: "string \<Rightarrow> nat \<Rightarrow> (nat \<times> nat \<times> caps) list" where
  "fence_matches text lastIndex =
     (case exec False codeBlockRegex text lastIndex of
        None \<Rightarrow> []
      | Some (idx, e, c) \<Rightarrow>
          if e \<le> lastIndex then [] else (idx, e, c) # fence_matches text e)"
  by pat_completeness auto
termination
proof (relation "measure (\<lambda>(t, li). length t - li)", goal_cases)
  case 1
  show ?case by simp
next
  case (2 t li x2 idx y e c)
  then have "e \<le> length t"
    using exec_end_le by metis
  with 2 show ?case by simp
qed

declare fence_matches.simps [simp del]

text \<open>The block that \<open>extractCodeBlocks\<close> pushes for a match, as its \<open>k\<close>-th block.\<close>

definition block_of :: "string \<Rightarrow> nat \<Rightarrow> nat \<times> nat \<times> caps \<Rightarrow> block" where
  "block_of text k m =
     (case m of (idx, e, c) \<Rightarrow>
        \<lparr>filename = block_filename (cap_or c 2 []) (substring text 0 idx) (cap_or c 1 ''typescript''),
         code = trim (case c 3 of None \<Rightarrow> [] | Some body \<Rightarrow> body),
         language = cap_or c 1 ''typescript'',
         order = k\<rparr>)"

text \<open>The orders of the code parts of a list of parts, in the order of the list.\<close>

fun code_orders :: "part list \<Rightarrow> nat list" where
  "code_orders [] = []"
| "code_orders (TextPart u # ps) = code_orders ps"
| "code_orders (CodePart k # ps) = k # code_orders ps"

text \<open>The fenced rendering of a block, and the interleaving of gaps with renderings.\<close>

definition fenced :: "block \<Rightarrow> string" where
  "fenced b = bt3 @ language b @ [nl] @ code b @ [nl] @ bt3"

fun weave :: "string list \<Rightarrow> string list \<Rightarrow> string" where
  "weave (g # gs) (f # fs) = g @ f @ weave gs fs"
| "weave gs [] = concat gs"
| "weave [] fs = concat fs"

lemma fence_matches_None: "exec False codeBlockRegex t li = None \<Longrightarrow> fence_matches t li = []"
  by (subst fence_matches.simps) simp

lemma fence_matches_Some:
  assumes "exec False codeBlockRegex t li = Some (idx, e, c)"
  shows "fence_matches t li = (idx, e, c) # fence_matches t e"
proof -
  from exec_codeBlock[OF assms] have "\<not> e \<le> li" by auto
  with assms show ?thesis by (subst fence_matches.simps) simp
qed

lemma fence_matches_lower: "m \<in> set (fence_matches t li) \<Longrightarrow> li \<le> fst m"
proof (induction t li rule: fence_matches.induct)
  case (1 t li)
  show ?case
  proof (cases "exec False codeBlockRegex t li")
    case None
    with "1.prems" show ?thesis by (simp add: fence_matches_None)
  next
    case (Some x)
    obtain idx e c where x: "x = (idx, e, c)" by (cases x)
    note ex = Some[unfolded x]
    from exec_codeBlock[OF ex] have b: "li \<le> idx" "idx + 6 \<le> e" "\<not> e \<le> li" by auto
    from "1.prems" have "m = (idx, e, c) \<or> m \<in> set (fence_matches t e)"
      by (simp add: fence_matches_Some[OF ex])
    then show ?thesis
    proof
      assume "m = (idx, e, c)"
      with b show ?thesis by simp
    next
      assume "m \<in> set (fence_matches t e)"
      from "1.IH"[OF ex refl refl b(3) this] b show ?thesis by simp
    qed
  qed
qed

lemma fence_matches_sorted: "sorted_wrt (<) (map fst (fence_matches t li))"
proof (induction t li rule: fence_matches.induct)
  case (1 t li)
  show ?case
  proof (cases "exec False codeBlockRegex t li")
    case None
    then show ?thesis by (simp add: fence_matches_None)
  next
    case (Some x)
    obtain idx e c where x: "x = (idx, e, c)" by (cases x)
    note ex = Some[unfolded x]
    from exec_codeBlock[OF ex] have b: "li \<le> idx" "idx + 6 \<le> e" "\<not> e \<le> li" by auto
    have "idx < fst m" if "m \<in> set (fence_matches t e)" for m
      using fence_matches_lower[OF that] b by simp
    with "1.IH"[OF ex refl refl b(3)] show ?thesis
      by (auto simp: fence_matches_Some[OF ex])
  qed
qed

lemma loop_blocks:
  "extractCodeBlocks_loop t li k =
     Inr (map (\<lambda>(j, m). block_of t j m) (enumerate k (fence_matches t li)))"
proof (induction t li k rule: extractCodeBlocks_loop.induct)
  case (1 t li k)
  show ?case
  proof (cases "exec False codeBlockRegex t li")
    case None
    then show ?thesis
      by (subst extractCodeBlocks_loop.simps) (simp add: fence_matches_None)
  next
    case (Some x)
    obtain idx e c where x: "x = (idx, e, c)" by (cases x)
    note ex = Some[unfolded x]
    from exec_codeBlock[OF ex] obtain body where
      b: "c 3 = Some body" and adv: "\<not> e \<le> li" by auto
    note ih = "1.IH"[OF ex refl refl refl refl b adv]
    have hd: "block_of t k (idx, e, c) =
        \<lparr>filename = block_filename (cap_or c 2 []) (substring t 0 idx) (cap_or c 1 ''typescript''),
         code = trim body, language = cap_or c 1 ''typescript'', order = k\<rparr>"
      by (simp add: block_of_def b)
    show ?thesis
      by (subst extractCodeBlocks_loop.simps)
         (simp add: ex b adv ih fence_matches_Some[OF ex] Let_def hd)
  qed
qed

lemma preserve_loop_codes:
  assumes "preserve_loop t n li k = Inr (ps, li')"
    and "k + length (fence_matches t li) \<le> n"
  shows "code_orders ps = map fst (enumerate k (fence_matches t li))"
  using assms
proof (induction t n li k arbitrary: ps li' rule: preserve_loop.induct)
  case (1 t n li k)
  show ?case
  proof (cases "exec False codeBlockRegex t li")
    case None
    with "1.prems" show ?thesis
      by (subst (asm) preserve_loop.simps) (simp add: fence_matches_None)
  next
    case (Some x)
    obtain idx e c where x: "x = (idx, e, c)" by (cases x)
    note ex = Some[unfolded x]
    from exec_codeBlock[OF ex] have adv: "\<not> e \<le> li" by auto
    note fm = fence_matches_Some[OF ex]
    from "1.prems"(2) have kn: "k < n" and rest: "Suc k + length (fence_matches t e) \<le> n"
      by (simp_all add: fm)
    from "1.prems"(1) obtain ps' where
      pl: "preserve_loop t n e (Suc k) = Inr (ps', li')" and
      ps: "ps = (if li < idx \<and> trim (substring t li idx) \<noteq> []
                 then [TextPart (trim (substring t li idx))] else []) @ CodePart k # ps'"
      by (subst (asm) preserve_loop.simps)
         (auto simp: ex adv kn Let_def split: sum.splits)
    from kn have k': "(if k < n then Suc k else k) = Suc k" by simp
    from "1.IH"[OF ex refl refl refl refl refl refl adv, unfolded k', OF pl rest]
    have "code_orders ps' = map fst (enumerate (Suc k) (fence_matches t e))" .
    then show ?thesis
      by (simp add: ps fm)
  qed
qed

lemma code_orders_append [simp]: "code_orders (ps @ qs) = code_orders ps @ code_orders qs"
  by (induction ps rule: code_orders.induct) auto

lemma weave_prepend: "gs \<noteq> [] \<Longrightarrow> weave ((a @ hd gs) # tl gs) fs = a @ weave gs fs"
  by (cases gs; cases fs) auto

lemma render_weave:
  assumes "code_orders ps = [k..<length bs]"
  shows "\<exists>gaps. length gaps = Suc (length bs - k) \<and> render bs ps = weave gaps (map fenced (drop k bs))"
  using assms
proof (induction ps arbitrary: k)
  case Nil
  then have "[k..<length bs] = []" by simp
  then have "length bs \<le> k" by auto
  then have "drop k bs = []" by simp
  moreover from \<open>length bs \<le> k\<close> have "length bs - k = 0" by simp
  ultimately show ?case by (intro exI[of _ "[[]]"]) simp
next
  case (Cons p ps)
  show ?case
  proof (cases p)
    case (TextPart u)
    with Cons.prems have "code_orders ps = [k..<length bs]" by simp
    from Cons.IH[OF this] obtain gaps where
      g: "length gaps = Suc (length bs - k)" "render bs ps = weave gaps (map fenced (drop k bs))"
      by auto
    define sep where "sep = (case ps of [] \<Rightarrow> [] | CodePart k # _ \<Rightarrow> [nl, nl] | TextPart u # _ \<Rightarrow> [nl, nl])"
    from g(1) have ne: "gaps \<noteq> []" by auto
    have "render bs (p # ps) = (u @ sep) @ weave gaps (map fenced (drop k bs))"
      by (simp add: TextPart g(2) sep_def)
    also have "\<dots> = weave (((u @ sep) @ hd gaps) # tl gaps) (map fenced (drop k bs))"
      using weave_prepend[OF ne, of "u @ sep" "map fenced (drop k bs)"] by simp
    finally show ?thesis using g(1) ne
      by (intro exI[of _ "((u @ sep) @ hd gaps) # tl gaps"]) simp
  next
    case (CodePart j)
    with Cons.prems have eq: "j # code_orders ps = [k..<length bs]" by simp
    then have kl: "k < length bs" by (cases "k < length bs") auto
    with eq have jk: "j = k" and rest: "code_orders ps = [Suc k..<length bs]"
      by (simp_all add: upt_rec[of k])
    from Cons.IH[OF rest] obtain gaps where
      g: "length gaps = Suc (length bs - Suc k)"
         "render bs ps = weave gaps (map fenced (drop (Suc k) bs))"
      by auto
    from g(1) have ne: "gaps \<noteq> []" by auto
    define b where "b = bs ! k"
    define fname where "fname = (if filename b = [] then ''File'' else filename b)"
    define hdr where "hdr = (if fname \<noteq> [] \<and> fname \<noteq> ''File'' \<and> fname \<noteq> ''src/index.ts''
             then ''**'' @ fname @ ''**'' @ [nl, nl] else [])"
    define sep where "sep = (if ps \<noteq> [] then [nl, nl] else [])"
    have d: "drop k bs = b # drop (Suc k) bs"
      using kl by (simp add: b_def Cons_nth_drop_Suc)
    have "render bs (p # ps) = hdr @ fenced b @ sep @ weave gaps (map fenced (drop (Suc k) bs))"
      using kl by (simp add: CodePart jk g(2) Let_def fenced_def b_def fname_def hdr_def sep_def)
    also have "\<dots> = weave (hdr # (sep @ hd gaps) # tl gaps) (map fenced (drop k bs))"
      using weave_prepend[OF ne, of sep] by (simp add: d)
    finally show ?thesis using g(1) ne kl
      by (intro exI[of _ "hdr # (sep @ hd gaps) # tl gaps"]) simp
  qed
qed

lemma order_block_of [simp]: "order (block_of t k m) = k"
  by (cases m) (simp add: block_of_def)

lemma map_order_blocks:
  "map order (map (\<lambda>(i, m). block_of t i m) (enumerate k xs)) = [k..<k + length xs]"
proof -
  have "map order (map (\<lambda>(i, m). block_of t i m) (enumerate k xs)) = map fst (enumerate k xs)"
    by (simp add: case_prod_unfold comp_def)
  then show ?thesis by simp
qed

text \<open>
  Claim C2.  When the scan finds N fenced blocks (N at least 1), the artifacts are the
  blocks built from the successive matches; the matches start at strictly increasing
  offsets; the artifact of the i-th match has \<open>order\<close> i, so the orders are 0, 1, ...,
  N - 1; and the explanation is, up to outer trimming, the fenced renderings of the
  artifacts in the order of the list, interleaved with the texts between them.
\<close>

theorem scan_order:
  assumes "fence_matches t 0 \<noteq> []"
  shows "\<exists>bs gaps. extractCodeBlocks t = Inr bs
           \<and> bs = map (\<lambda>(i, m). block_of t i m) (enumerate 0 (fence_matches t 0))
           \<and> map order bs = [0..<length bs]
           \<and> sorted_wrt (<) (map fst (fence_matches t 0))
           \<and> length gaps = Suc (length bs)
           \<and> preserveOrderedContent t bs = Inr (trim (weave gaps (map fenced bs)))"
proof -
  define bs where "bs = map (\<lambda>(i, m). block_of t i m) (enumerate 0 (fence_matches t 0))"
  have len: "length bs = length (fence_matches t 0)" by (simp add: bs_def)
  with assms have ne: "bs \<noteq> []" by auto
  have lp: "extractCodeBlocks_loop t 0 0 = Inr bs" by (simp add: loop_blocks bs_def)
  with ne have e: "extractCodeBlocks t = Inr bs" by (simp add: extractCodeBlocks_def)
  have ord: "map order bs = [0..<length bs]"
    using map_order_blocks[of t 0 "fence_matches t 0"] by (simp add: bs_def)
  obtain ps li' where pl: "preserve_loop t (length bs) 0 0 = Inr (ps, li')"
    using preserve_loop_total by blast
  from preserve_loop_codes[OF pl] len have co: "code_orders ps = [0..<length bs]" by simp
  define parts where "parts = ps @ (if li' < length t \<and> trim (drop li' t) \<noteq> []
                                    then [TextPart (trim (drop li' t))] else [])"
  have "code_orders parts = [0..<length bs]" by (simp add: parts_def co)
  from render_weave[OF this] obtain gaps where
    g: "length gaps = Suc (length bs)" "render bs parts = weave gaps (map fenced bs)" by auto
  have "preserveOrderedContent t bs = Inr (trim (weave gaps (map fenced bs)))"
    using ne pl g(2) by (simp add: preserveOrderedContent_def Let_def parts_def)
  with e ord g(1) fence_matches_sorted[of t 0] show ?thesis
    unfolding bs_def by blast
qed

theorem scan_order_witness:
  "fence_matches (''a'' @ bt3 @ ''js'' @ [nl] @ ''x'' @ [nl] @ bt3 @ ''b'' @ bt3 @ ''js'' @ [nl] @ ''y'' @ [nl] @ bt3) 0 \<noteq> []
   \<and> (\<exists>bs gaps.
        extractCodeBlocks (''a'' @ bt3 @ ''js'' @ [nl] @ ''x'' @ [nl] @ bt3 @ ''b'' @ bt3 @ ''js'' @ [nl] @ ''y'' @ [nl] @ bt3) = Inr bs
        \<and> map order bs = [0, 1]
        \<and> map code bs = [''x'', ''y'']
        \<and> length gaps = 3
        \<and> preserveOrderedContent (''a'' @ bt3 @ ''js'' @ [nl] @ ''x'' @ [nl] @ bt3 @ ''b'' @ bt3 @ ''js'' @ [nl] @ ''y'' @ [nl] @ bt3) bs
            = Inr (trim (weave gaps (map fenced bs))))"
proof -
  define t where "t = ''a'' @ bt3 @ ''js'' @ [nl] @ ''x'' @ [nl] @ bt3 @ ''b'' @ bt3 @ ''js'' @ [nl] @ ''y'' @ [nl] @ bt3"
  have starts: "map fst (fence_matches t 0) = [1, 13]" unfolding t_def by code_simp
  then have h: "fence_matches t 0 \<noteq> []" by auto
  have ev: "map_sum id (map code) (extractCodeBlocks t) = Inr [''x'', ''y'']"
    unfolding t_def by code_simp
  from scan_order[OF h] obtain bs gaps where
    r: "extractCodeBlocks t = Inr bs" "map order bs = [0..<length bs]"
       "bs = map (\<lambda>(i, m). block_of t i m) (enumerate 0 (fence_matches t 0))"
       "length gaps = Suc (length bs)"
       "preserveOrderedContent t bs = Inr (trim (weave gaps (map fenced bs)))"
    by blast
  from r(3) have "length bs = length (map fst (fence_matches t 0))" by simp
  then have l2: "length bs = 2" by (simp only: starts) simp
  with r(2) have o: "map order bs = [0, 1]" by (simp add: upt_rec)
  from ev r(1) have c: "map code bs = [''x'', ''y'']" by simp
  from l2 r(4) have g3: "length gaps = 3" by simp
  have "\<exists>bs gaps. extractCodeBlocks t = Inr bs \<and> map order bs = [0, 1]
          \<and> map code bs = [''x'', ''y''] \<and> length gaps = 3
          \<and> preserveOrderedContent t bs = Inr (trim (weave gaps (map fenced bs)))"
    by (rule exI[of _ bs], rule exI[of _ gaps]) (simp only: r(1) o c g3 r(5) simp_thms)
  with h show ?thesis unfolding t_def by simp
qed

section \<open>The text that file-name inference examines\<close>

text \<open>
  A sample text: \<^verbatim>\<open>a.ts:\<close>, a newline, a fenced \<open>js\<close> block holding \<open>x\<close>, a newline,
  and a fenced \<open>js\<close> block holding \<open>y\<close>.  The first fence spans offsets 6 to 17, the
  second 18 to 29.
\<close>

definition sample_two_fences :: string where
  "sample_two_fences =
     ''a.ts:'' @ [nl] @ bt3 @ ''js'' @ [nl] @ ''x'' @ [nl] @ bt3 @ [nl]
       @ bt3 @ ''js'' @ [nl] @ ''y'' @ [nl] @ bt3"

text \<open>
  Two texts in which each of two fenced blocks has its own file name on the line above
  it: \<^verbatim>\<open>a.ts:\<close> and \<^verbatim>\<open>b.ts:\<close> above two \<open>js\<close> blocks (fences at 6 to 17 and 24 to 35),
  and the bold \<^verbatim>\<open>**a.ts**\<close> and \<^verbatim>\<open>**b.ts**\<close> above two \<open>ts\<close> blocks (fences at 9 to 20 and
  30 to 41).
\<close>

definition sample_two_headers :: string where
  "sample_two_headers =
     ''a.ts:'' @ [nl] @ bt3 @ ''js'' @ [nl] @ ''x'' @ [nl] @ bt3 @ [nl]
     @ ''b.ts:'' @ [nl] @ bt3 @ ''js'' @ [nl] @ ''y'' @ [nl] @ bt3"

definition sample_bold_headers :: string where
  "sample_bold_headers =
     ''**a.ts**'' @ [nl] @ bt3 @ ''ts'' @ [nl] @ ''A'' @ [nl] @ bt3 @ [nl]
     @ ''**b.ts**'' @ [nl] @ bt3 @ ''ts'' @ [nl] @ ''B'' @ [nl] @ bt3"

lemma ms_PlusG_shorter:
  assumes "(s', c') \<in> set (ms ci (PlusG P) (s, c))"
  shows "length s' < length s"
proof -
  from assms obtain k where k: "1 \<le> k" "k \<le> length (takeWhile P s)" "s' = drop k s"
    by auto
  have "length (takeWhile P s) \<le> length s" by (rule length_takeWhile_le)
  with k show ?thesis by simp
qed

lemma ms_length_le:
  assumes "(s', c') \<in> set (ms ci r (s, c))"
  shows "length s' \<le> length s"
  using ms_suffix[OF assms] by auto

lemma grp_plus_nonempty:
  assumes "(s2, c2) \<in> set (ms ci (Grp n (Seq (PlusG P) r)) (s1, c1))"
  shows "\<exists>f. c2 n = Some f \<and> f \<noteq> []"
proof -
  from assms obtain c0 where
    m: "(s2, c0) \<in> set (ms ci (Seq (PlusG P) r) (s1, c1))" and
    c2: "c2 = c0(n \<mapsto> take (length s1 - length s2) s1)"
    unfolding ms_Grp_mem by blast
  from m obtain y where y: "y \<in> set (ms ci (PlusG P) (s1, c1))" and
    r: "(s2, c0) \<in> set (ms ci r y)"
    unfolding ms_Seq_mem by blast
  obtain sy cy where ye: "y = (sy, cy)" by (cases y)
  from ms_PlusG_shorter[OF y[unfolded ye]] ms_length_le[OF r[unfolded ye]]
  have "length s2 < length s1" by simp
  then have "take (length s1 - length s2) s1 \<noteq> []" by auto
  with c2 show ?thesis by simp
qed

lemma fileToken_group:
  assumes "(s2, c2) \<in> set (ms ci fileTokenRegex st)"
  shows "\<exists>f. c2 1 = Some f \<and> f \<noteq> []"
proof -
  obtain s1 c1 where "st = (s1, c1)" by (cases st)
  with assms have "(s2, c2) \<in> set (ms ci (Grp 1 (Seq (PlusG is_fname) (Seq (Chars ''.'') extRegex))) (s1, c1))"
    unfolding fileTokenRegex_def by simp
  then show ?thesis by (rule grp_plus_nonempty)
qed

lemma ms_Chars_caps:
  assumes "(s', c') \<in> set (ms ci (Chars p) y)"
  shows "c' = snd y"
  using assms by (cases y) (simp add: ms_Chars_mem)

lemma pattern_group:
  assumes "p \<in> set filenamePatterns"
    and "(s', c') \<in> set (ms ci p (s, c))"
  shows "\<exists>f. c' 1 = Some f \<and> f \<noteq> []"
proof -
  from assms(1) consider "p = boldPattern" | "p = colonPattern" | "p = verbPattern" | "p = labelPattern"
    by (auto simp: filenamePatterns_def)
  then show ?thesis
  proof cases
    case 1
    from assms(2) obtain y1 y2 where
      g: "y2 \<in> set (ms ci (Grp 1 (Seq (PlusG not_star_nl) (Seq (Chars ''.'') extRegex))) y1)" and
      e: "(s', c') \<in> set (ms ci (Chars ''**'') y2)"
      unfolding 1 boldPattern_def ms_Seq_mem by blast
    obtain a1 b1 a2 b2 where ye: "y1 = (a1, b1)" "y2 = (a2, b2)" by (cases y1; cases y2)
    from grp_plus_nonempty[OF g[unfolded ye]] have "\<exists>f. snd y2 1 = Some f \<and> f \<noteq> []"
      by (simp add: ye)
    with ms_Chars_caps[OF e] show ?thesis by simp
  next
    case 2
    from assms(2) obtain y where
      g: "y \<in> set (ms ci fileTokenRegex (s, c))" and
      e: "(s', c') \<in> set (ms ci (Chars '':'') y)"
      unfolding 2 colonPattern_def ms_Seq_mem by blast
    obtain a2 b2 where ye: "y = (a2, b2)" by (cases y)
    from fileToken_group[OF g[unfolded ye]] have "\<exists>f. snd y 1 = Some f \<and> f \<noteq> []"
      by (simp add: ye)
    with ms_Chars_caps[OF e] show ?thesis by simp
  next
    case 3
    from assms(2) obtain y1 y2 where "(s', c') \<in> set (ms ci fileTokenRegex y2)"
      unfolding 3 verbPattern_def ms_Seq_mem by blast
    then show ?thesis by (rule fileToken_group)
  next
    case 4
    from assms(2) obtain y1 y2 where "(s', c') \<in> set (ms ci fileTokenRegex y2)"
      unfolding 4 labelPattern_def ms_Seq_mem by blast
    then show ?thesis by (rule fileToken_group)
  qed
qed

lemma match_first_group:
  assumes "p \<in> set filenamePatterns"
    and "match_first True p b = Some (m0, c')"
  shows "\<exists>f. c' 1 = Some f \<and> f \<noteq> []"
proof -
  from assms(2) obtain i s' where "search True p b = Some (i, s', c')"
    by (auto simp: match_first_def split: option.splits)
  from search_Some[OF this] have "(s', c') \<in> set (ms True p (drop i b, Map.empty))" by auto
  with assms(1) show ?thesis by (rule pattern_group)
qed

lemma infer_filename_first:
  assumes "j < length ps"
    and "match_first True (ps ! j) b = Some (m0, c')"
    and "\<forall>j'<j. match_first True (ps ! j') b = None"
  shows "infer_filename ps b = (case c' 1 of Some f \<Rightarrow> f | None \<Rightarrow> [])"
  using assms
proof (induction ps arbitrary: j)
  case Nil
  then show ?case by simp
next
  case (Cons p ps)
  show ?case
  proof (cases j)
    case 0
    with Cons.prems show ?thesis by simp
  next
    case (Suc k)
    with Cons.prems have p: "match_first True p b = None" by auto
    from Cons.prems Suc have "k < length ps" "match_first True (ps ! k) b = Some (m0, c')"
      "\<forall>j'<k. match_first True (ps ! j') b = None" by auto
    from Cons.IH[OF this] p show ?thesis by simp
  qed
qed

lemma block_filename_inferred:
  assumes "infer_filename filenamePatterns b = f" and "f \<noteq> []"
  shows "block_filename [] b lang = f"
  using assms by (simp add: block_filename_def Let_def)

text \<open>
  What the loop computes for a fenced block without a \<open>filename\<close> attribute: the patterns
  are matched against \<open>beforeBlock = text.substring(0, match.index)\<close>, the whole text from
  its start to the start of the current fence, earlier fences included, and the first
  pattern of the list that matches there gives the file name (its first group).
\<close>

theorem inference_window:
  assumes "i < length (fence_matches t 0)"
    and "fence_matches t 0 ! i = (idx, e, c)"
    and "cap_or c 2 [] = []"
    and "j < length filenamePatterns"
    and "match_first True (filenamePatterns ! j) (substring t 0 idx) = Some (m0, c')"
    and "\<forall>j'<j. match_first True (filenamePatterns ! j') (substring t 0 idx) = None"
  shows "\<exists>bs. extractCodeBlocks t = Inr bs \<and> i < length bs \<and> c' 1 = Some (filename (bs ! i))"
proof -
  define bs where "bs = map (\<lambda>(k, m). block_of t k m) (enumerate 0 (fence_matches t 0))"
  have len: "length bs = length (fence_matches t 0)" by (simp add: bs_def)
  with assms(1) have ne: "bs \<noteq> []" by auto
  have "extractCodeBlocks_loop t 0 0 = Inr bs" by (simp add: loop_blocks bs_def)
  with ne have e: "extractCodeBlocks t = Inr bs" by (simp add: extractCodeBlocks_def)
  have "bs ! i = block_of t i (fence_matches t 0 ! i)"
    using assms(1) by (simp add: bs_def nth_enumerate_eq)
  then have fn: "filename (bs ! i) = block_filename [] (substring t 0 idx) (cap_or c 1 ''typescript'')"
    by (simp add: assms(2,3) block_of_def)
  from assms(4) have "filenamePatterns ! j \<in> set filenamePatterns" by simp
  from match_first_group[OF this assms(5)] obtain f where f: "c' 1 = Some f" "f \<noteq> []" by auto
  from infer_filename_first[OF assms(4,5,6)] f
  have "infer_filename filenamePatterns (substring t 0 idx) = f" by simp
  from block_filename_inferred[OF this f(2)] fn f(1) have "c' 1 = Some (filename (bs ! i))" by simp
  with e len assms(1) show ?thesis by auto
qed

theorem inference_window_witness:
  "length (fence_matches sample_two_fences 0) = 2
   \<and> (case fence_matches sample_two_fences 0 ! 1 of (idx, e, c) \<Rightarrow> (idx, e, cap_or c 2 [])) = (18, 29, [])
   \<and> match_first True (filenamePatterns ! 0) (substring sample_two_fences 0 18) = None
   \<and> (case match_first True (filenamePatterns ! 1) (substring sample_two_fences 0 18) of
        None \<Rightarrow> None | Some (m, c') \<Rightarrow> c' 1) = Some ''a.ts''
   \<and> (\<exists>bs. extractCodeBlocks sample_two_fences = Inr bs \<and> filename (bs ! 1) = ''a.ts'')"
proof -
  have a1: "length (fence_matches sample_two_fences 0) = 2" by code_simp
  have a2: "(case fence_matches sample_two_fences 0 ! 1 of (idx, e, c) \<Rightarrow> (idx, e, cap_or c 2 []))
             = (18, 29, [])" by code_simp
  have a3: "match_first True (filenamePatterns ! 0) (substring sample_two_fences 0 18) = None"
    by code_simp
  have a4: "(case match_first True (filenamePatterns ! 1) (substring sample_two_fences 0 18) of
              None \<Rightarrow> None | Some (m, c') \<Rightarrow> c' 1) = Some ''a.ts''" by code_simp
  obtain idx e c where m: "fence_matches sample_two_fences 0 ! 1 = (idx, e, c)"
    by (cases "fence_matches sample_two_fences 0 ! 1")
  with a2 have v: "idx = 18" "e = 29" "cap_or c 2 [] = []" by simp_all
  from a4 obtain m0 c' where
    f: "match_first True (filenamePatterns ! 1) (substring sample_two_fences 0 18) = Some (m0, c')"
    and g: "c' 1 = Some ''a.ts''"
    by (auto split: option.splits)
  have i: "1 < length (fence_matches sample_two_fences 0)" using a1 by simp
  have j: "1 < length filenamePatterns" by (simp add: filenamePatterns_def)
  have n: "\<forall>j'<1. match_first True (filenamePatterns ! j') (substring sample_two_fences 0 18) = None"
    using a3 by simp
  from inference_window[OF i m[unfolded v(1,2)] v(3) j f n] g
  have "\<exists>bs. extractCodeBlocks sample_two_fences = Inr bs \<and> filename (bs ! 1) = ''a.ts''"
    by auto
  with a1 a2 a3 a4 show ?thesis by simp
qed

text \<open>
  Claim C7 does not hold of the code.  In \<open>sample_two_headers\<close> the text from the end of
  the first fence to the start of the second is a newline, \<^verbatim>\<open>b.ts:\<close> and a newline; in
  that window the colon pattern matches and gives \<open>b.ts\<close>, which is the name the claim
  assigns to the second block.  The code matches the patterns against the text from offset
  0, where the leftmost match of the colon pattern is \<^verbatim>\<open>a.ts:\<close>, and names both blocks
  \<open>a.ts\<close>.  The same happens in \<open>sample_bold_headers\<close> with the bold pattern.  The
  reconstruction loop of \<open>preserveOrderedContent\<close> does take the text since the previous
  fence, and has \<^verbatim>\<open>**b.ts**\<close> as the text before the second block.
\<close>

theorem inference_ignores_nearer_name:
  "map (\<lambda>(i, e, c). (i, e)) (fence_matches sample_two_headers 0) = [(6, 17), (24, 35)]
   \<and> substring sample_two_headers 17 24 = [nl] @ ''b.ts:'' @ [nl]
   \<and> infer_filename filenamePatterns (substring sample_two_headers 17 24) = ''b.ts''
   \<and> block_filename [] (substring sample_two_headers 17 24) ''js'' = ''b.ts''
   \<and> map_sum id (map filename) (extractCodeBlocks sample_two_headers) = Inr [''a.ts'', ''a.ts'']
   \<and> map (\<lambda>(i, e, c). (i, e)) (fence_matches sample_bold_headers 0) = [(9, 20), (30, 41)]
   \<and> block_filename [] (substring sample_bold_headers 20 30) ''ts'' = ''b.ts''
   \<and> map_sum id (map filename) (extractCodeBlocks sample_bold_headers) = Inr [''a.ts'', ''a.ts'']
   \<and> map_sum id fst (preserve_loop sample_bold_headers 2 0 0)
       = Inr [TextPart ''**a.ts**'', CodePart 0, TextPart ''**b.ts**'', CodePart 1]"
  by code_simp

section \<open>extractConfig on a block with a language tag\<close>

text \<open>
  Claim C6 at a concrete text: \<^verbatim>\<open>wrangler.toml\<close>, a newline, and a fenced \<open>toml\<close> block
  holding \<^verbatim>\<open>name = "x"\<close>.  The result starts with the language tag of the opening
  marker, \<open>toml\<close> and a newline, and the block's content follows; a text without the
  keyword gives no result.
\<close>

theorem config_keeps_language_tag:
  "extractConfig (''wrangler.toml'' @ [nl] @ bt3 @ ''toml'' @ [nl] @ ''name = '' @ [dq] @ ''x'' @ [dq] @ [nl] @ bt3)
     = Some (''toml'' @ [nl] @ ''name = '' @ [dq] @ ''x'' @ [dq])
   \<and> map_sum id (map code)
        (extractCodeBlocks (''wrangler.toml'' @ [nl] @ bt3 @ ''toml'' @ [nl] @ ''name = '' @ [dq] @ ''x'' @ [dq] @ [nl] @ bt3))
     = Inr [''name = '' @ [dq] @ ''x'' @ [dq]]
   \<and> extractConfig (bt3 @ ''toml'' @ [nl] @ ''name = '' @ [dq] @ ''x'' @ [dq] @ [nl] @ bt3) = None"
  by code_simp

section \<open>The first match in order of priority\<close>

declare ms.simps [simp del]

text \<open>\<open>s.indexOf(p)\<close>: the offset of the first occurrence of \<open>p\<close> in \<open>s\<close>.\<close>

fun index_of :: "string \<Rightarrow> string \<Rightarrow> nat option" where
  "index_of p [] = (if p = [] then Some 0 else None)"
| "index_of p (c # cs) =
     (if starts_with p (c # cs) then Some 0 else map_option Suc (index_of p cs))"

lemma index_of_Some_iff:
  "index_of p s = Some j \<longleftrightarrow>
     j \<le> length s \<and> starts_with p (drop j s) \<and> (\<forall>k<j. \<not> starts_with p (drop k s))"
proof (induction s arbitrary: j)
  case Nil
  then show ?case by (auto simp: starts_with_def)
next
  case (Cons a s)
  show ?case
  proof (cases "starts_with p (a # s)")
    case True
    then show ?thesis by (cases j) auto
  next
    case False
    show ?thesis
    proof (cases j)
      case 0
      with False show ?thesis by simp
    next
      case (Suc j')
      have "(\<forall>k<Suc j'. \<not> starts_with p (drop k (a # s))) \<longleftrightarrow> (\<forall>k<j'. \<not> starts_with p (drop k s))"
        using False by (auto simp: less_Suc_eq_0_disj)
      with False Suc Cons.IH[of j'] show ?thesis by auto
    qed
  qed
qed

lemma index_of_None_iff: "index_of p s = None \<longleftrightarrow> \<not> includes_str p s"
  by (induction s) auto

lemma starts_with_bt3_length: "starts_with bt3 s \<Longrightarrow> 3 \<le> length s"
  by (cases s rule: list.exhaust; cases "tl s"; cases "tl (tl s)")
     (auto simp: starts_with_def bt3_def)

lemma includes_str_drop:
  assumes "includes_str bt3 (drop b s)" and "a \<le> b"
  shows "includes_str bt3 (drop a s)"
proof -
  from assms(1) obtain i where i: "starts_with bt3 (drop i (drop b s))"
    by (auto simp: includes_str_iff)
  from starts_with_bt3_length[OF i] have l: "i + b + 3 \<le> length s" by simp
  have "drop i (drop b s) = drop (i + b - a) (drop a s)" using assms(2) by simp
  moreover have "i + b - a \<le> length (drop a s)" using l assms(2) by auto
  ultimately show ?thesis using i by (auto simp: includes_str_iff)
qed

lemma concat_map_upt_first:
  assumes "j \<le> n" and "g j = v # vs" and "\<forall>k<j. g k = []"
  shows "\<exists>rest. concat (map g [0..<Suc n]) = v # rest"
proof -
  have "[0..<j + (Suc n - j)] = [0..<j] @ [j..<j + (Suc n - j)]"
    by (rule upt_add_eq_append) simp
  moreover have "[j..<Suc n] = j # [Suc j..<Suc n]"
    using assms(1) by (intro upt_conv_Cons) simp
  ultimately have eq: "[0..<Suc n] = [0..<j] @ j # [Suc j..<Suc n]"
    using assms(1) by (simp del: upt_Suc)
  have z: "concat (map g [0..<j]) = []" using assms(3) by simp
  have "concat (map g [0..<Suc n]) = v # (vs @ concat (map g [Suc j..<Suc n]))"
    by (simp only: eq map_append concat_append z list.map concat.simps append_Nil assms(2) append_Cons)
  then show ?thesis by blast
qed

lemma search_eqI:
  assumes "i \<le> length s"
    and "ms ci r (drop i s, Map.empty) = (s', c) # rest"
    and "\<forall>j<i. ms ci r (drop j s, Map.empty) = []"
  shows "search ci r s = Some (i, s', c)"
  using assms
proof (induction s arbitrary: i)
  case Nil
  then show ?case by simp
next
  case (Cons a s)
  show ?case
  proof (cases i)
    case 0
    with Cons.prems show ?thesis by simp
  next
    case (Suc i')
    from Cons.prems(3) Suc have z: "ms ci r (a # s, Map.empty) = []" by auto
    have "\<forall>j<i'. ms ci r (drop j s, Map.empty) = []"
      using Cons.prems(3) Suc by (metis Suc_less_eq drop_Suc_Cons)
    with Cons.IH[of i'] Cons.prems(1,2) Suc have "search ci r s = Some (i', s', c)" by simp
    with z Suc show ?thesis by simp
  qed
qed

lemma ms_Chars_bt3:
  "ms ci (Chars bt3) (s, c) = (if starts_with bt3 s then [(drop 3 s, c)] else [])"
proof (cases "lit_match ci bt3 s")
  case None
  then have "\<not> starts_with bt3 s"
    using lit_match_bt3[of ci s "drop 3 s"]
    by (metis append_take_drop_id bt3_def length_Cons list.size(3) numeral_3_eq_3 option.distinct(1) starts_with_def)
  with None show ?thesis by (simp add: ms.simps)
next
  case (Some s')
  then have "s = bt3 @ s'" by (simp add: lit_match_bt3)
  then have "starts_with bt3 s" "drop 3 s = s'" by (simp_all add: starts_with_def bt3_def)
  with Some show ?thesis by (simp add: ms.simps)
qed

lemma takeWhile_any [simp]: "takeWhile any_char s = s"
  by (induction s) (auto simp: any_char_def)

text \<open>A lazy \<open>[\s\S]*?\<close> followed by the marker stops at the first marker.\<close>

lemma lazy_marker:
  "ms ci (Seq (StarL any_char) (Chars bt3)) (s, c) =
     concat (map (\<lambda>k. if starts_with bt3 (drop k s) then [(drop (k + 3) s, c)] else [])
                 [0..<Suc (length s)])"
proof -
  have "ms ci (Seq (StarL any_char) (Chars bt3)) (s, c) =
          concat (map (\<lambda>k. ms ci (Chars bt3) (drop k s, c)) [0..<Suc (length s)])"
    by (simp only: ms.simps(7) ms.simps(4) takeWhile_any map_map comp_def)
  also have "\<dots> = concat (map (\<lambda>k. if starts_with bt3 (drop k s) then [(drop (k + 3) s, c)] else [])
                 [0..<Suc (length s)])"
    by (simp only: ms_Chars_bt3 drop_drop add.commute[of 3])
  finally show ?thesis .
qed

lemma lazy_marker_first:
  assumes "index_of bt3 s = Some j"
  shows "\<exists>rest. ms ci (Seq (StarL any_char) (Chars bt3)) (s, c) = (drop (j + 3) s, c) # rest"
proof -
  from assms have j: "j \<le> length s" "starts_with bt3 (drop j s)"
    "\<forall>k<j. \<not> starts_with bt3 (drop k s)" by (simp_all add: index_of_Some_iff)
  show ?thesis unfolding lazy_marker
    by (rule concat_map_upt_first[OF j(1)]) (use j in auto)
qed

lemma lazy_marker_none:
  assumes "index_of bt3 s = None"
  shows "ms ci (Seq (StarL any_char) (Chars bt3)) (s, c) = []"
proof -
  from assms have "\<not> starts_with bt3 (drop k s)" if "k \<le> length s" for k
    using that by (auto simp: index_of_None_iff includes_str_iff)
  then show ?thesis unfolding lazy_marker by (auto simp del: upt_Suc)
qed

lemma fallback_ms:
  "ms ci fallbackRegex (s, c) =
     (if starts_with bt3 s then ms ci (Seq (StarL any_char) (Chars bt3)) (drop 3 s, c) else [])"
  unfolding fallbackRegex_def by (subst ms.simps(7)) (simp add: ms_Chars_bt3 del: ms.simps)

lemma fallback_search:
  assumes "index_of bt3 t = Some i"
  shows "search ci fallbackRegex t =
           (case index_of bt3 (drop (i + 3) t) of
              None \<Rightarrow> None
            | Some j \<Rightarrow> Some (i, drop (j + 3) (drop (i + 3) t), Map.empty))"
proof -
  from assms have i: "i \<le> length t" "starts_with bt3 (drop i t)"
    "\<forall>k<i. \<not> starts_with bt3 (drop k t)" by (simp_all add: index_of_Some_iff)
  show ?thesis
  proof (cases "index_of bt3 (drop (i + 3) t)")
    case None
    have "ms ci fallbackRegex (drop k t, Map.empty) = []" if "k \<le> length t" for k
    proof (cases "starts_with bt3 (drop k t)")
      case False
      then show ?thesis by (simp add: fallback_ms del: ms.simps)
    next
      case True
      with i(3) have "i \<le> k" by (meson not_le_imp_less)
      have "\<not> includes_str bt3 (drop (k + 3) t)"
        using None includes_str_drop[of "k + 3" t "i + 3"] \<open>i \<le> k\<close>
        by (auto simp: index_of_None_iff)
      then have "index_of bt3 (drop 3 (drop k t)) = None"
        by (simp add: index_of_None_iff add.commute)
      then show ?thesis by (simp add: fallback_ms lazy_marker_none del: ms.simps)
    qed
    then have "search ci fallbackRegex t = None" by (simp add: search_None_iff)
    with None show ?thesis by simp
  next
    case (Some j)
    then have "index_of bt3 (drop 3 (drop i t)) = Some j" by (simp add: add.commute)
    from lazy_marker_first[OF this, where ci = ci and c = Map.empty] obtain rest where
      "ms ci fallbackRegex (drop i t, Map.empty) = (drop (j + 3) (drop (i + 3) t), Map.empty) # rest"
      using i(2) by (auto simp add: fallback_ms add.commute simp del: ms.simps)
    moreover have "\<forall>k<i. ms ci fallbackRegex (drop k t, Map.empty) = []"
      using i(3) by (simp add: fallback_ms del: ms.simps)
    ultimately have "search ci fallbackRegex t = Some (i, drop (j + 3) (drop (i + 3) t), Map.empty)"
      using i(1) by (intro search_eqI)
    with Some show ?thesis by simp
  qed
qed

section \<open>The block of the fallback\<close>

text \<open>
  What the fallback keeps of the text between two markers: \<^verbatim>\<open>/```\w*\n?/g\<close> removes,
  with the opening marker, the word characters that follow it and one newline after them.
\<close>

definition strip_tag :: "string \<Rightarrow> string" where
  "strip_tag u = (case dropWhile is_word u of [] \<Rightarrow> [] | x # xs \<Rightarrow> if x = nl then xs else x # xs)"

lemma length_bt3 [simp]: "length bt3 = 3"
  by (simp add: bt3_def)

lemma starts_with_bt3_append [simp]: "starts_with bt3 (bt3 @ x)"
  by (simp add: starts_with_def)

lemma starts_with_bt3_self [simp]: "starts_with bt3 bt3"
  by (simp add: starts_with_def)

lemma not_starts_with_bt3_Nil [simp]: "\<not> starts_with bt3 []"
  by (simp add: starts_with_def bt3_def)

lemma bt_not_word: "\<not> is_word bt"
  by (simp add: is_word_def bt_def)

lemma bt_not_nl: "bt \<noteq> nl"
  by (simp add: bt_def nl_def)

lemma ms_Chars_nl:
  "ms False (Chars [nl]) (y, c) = (case y of [] \<Rightarrow> [] | a # ys \<Rightarrow> if a = nl then [(ys, c)] else [])"
  by (cases y) (auto simp: ch_eq_def ms.simps)

lemma ms_Opt_nl_first: "\<exists>rest. ms False (Opt (Chars [nl])) (y, c) =
    (case y of [] \<Rightarrow> [] | a # ys \<Rightarrow> if a = nl then ys else a # ys, c) # rest"
  by (cases y) (auto simp: ch_eq_def ms.simps)

lemma rev_upt_Suc: "rev [0..<Suc n] = n # rev [0..<n]"
  by simp

lemma fenceOpen_first: "\<exists>rest. ms False fenceOpenRegex (bt3 @ x, c) = (strip_tag x, c) # rest"
proof -
  define n where "n = length (takeWhile is_word x)"
  have d: "drop n x = dropWhile is_word x" by (simp add: n_def dropWhile_eq_drop)
  have "ms False fenceOpenRegex (bt3 @ x, c) = ms False (Seq (StarG is_word) (Opt (Chars [nl]))) (x, c)"
    unfolding fenceOpenRegex_def by (subst ms.simps(7)) (simp add: ms_Chars_bt3 del: ms.simps)
  also have "\<dots> = concat (map (\<lambda>k. ms False (Opt (Chars [nl])) (drop k x, c)) (rev [0..<Suc n]))"
    by (simp only: ms.simps(7) ms.simps(2) map_map comp_def n_def)
  also have "\<dots> = ms False (Opt (Chars [nl])) (dropWhile is_word x, c)
                    @ concat (map (\<lambda>k. ms False (Opt (Chars [nl])) (drop k x, c)) (rev [0..<n]))"
    by (simp only: rev_upt_Suc list.map concat.simps d)
  finally have e: "ms False fenceOpenRegex (bt3 @ x, c) =
      ms False (Opt (Chars [nl])) (dropWhile is_word x, c)
        @ concat (map (\<lambda>k. ms False (Opt (Chars [nl])) (drop k x, c)) (rev [0..<n]))" .
  from ms_Opt_nl_first[of "dropWhile is_word x" c] obtain r1 where
    "ms False (Opt (Chars [nl])) (dropWhile is_word x, c) = (strip_tag x, c) # r1"
    by (auto simp: strip_tag_def)
  with e show ?thesis by simp
qed

lemma strip_tag_append_bt3: "strip_tag (u @ bt3) = strip_tag u @ bt3"
proof (cases "dropWhile is_word u")
  case Nil
  have su: "strip_tag u = []" unfolding strip_tag_def Nil by simp
  from Nil have "\<forall>x\<in>set u. is_word x" by simp
  then have "dropWhile is_word (u @ bt3) = bt3"
    by (simp add: dropWhile_append bt3_def bt_not_word)
  then have "strip_tag (u @ bt3) = bt3"
    unfolding strip_tag_def by (simp add: bt3_def bt_not_nl)
  with su show ?thesis by simp
next
  case (Cons a ys)
  then have "\<not> (\<forall>x\<in>set u. is_word x)" by (metis dropWhile_eq_Nil_conv list.distinct(1))
  then have "dropWhile is_word (u @ bt3) = dropWhile is_word u @ bt3"
    by (auto simp: dropWhile_append)
  then show ?thesis unfolding strip_tag_def Cons by simp
qed

lemma strip_tag_suffix: "\<exists>a. u = a @ strip_tag u"
proof -
  have e: "u = takeWhile is_word u @ dropWhile is_word u" by simp
  show ?thesis
  proof (cases "dropWhile is_word u")
    case Nil
    have "strip_tag u = []" unfolding strip_tag_def Nil by simp
    then show ?thesis by simp
  next
    case (Cons x xs)
    show ?thesis
    proof (cases "x = nl")
      case True
      have "strip_tag u = xs" unfolding strip_tag_def Cons using True by simp
      moreover from e have "u = (takeWhile is_word u @ [x]) @ xs" unfolding Cons by simp
      ultimately show ?thesis by metis
    next
      case False
      have "strip_tag u = dropWhile is_word u" unfolding strip_tag_def Cons using False by simp
      with e show ?thesis by metis
    qed
  qed
qed

lemma closed_suffix:
  assumes "index_of bt3 ((a @ v) @ bt3) = Some (length (a @ v))"
  shows "index_of bt3 (v @ bt3) = Some (length v)"
proof -
  from assms have n: "\<forall>k<length a + length v. \<not> starts_with bt3 (drop k ((a @ v) @ bt3))"
    by (simp add: index_of_Some_iff)
  have "\<not> starts_with bt3 (drop k (v @ bt3))" if "k < length v" for k
    using n[rule_format, of "length a + k"] that by simp
  then show ?thesis by (simp add: index_of_Some_iff)
qed

lemma closed_no_marker:
  assumes "index_of bt3 (v @ bt3) = Some (length v)"
  shows "\<not> includes_str bt3 v"
proof
  assume "includes_str bt3 v"
  then obtain k where k: "starts_with bt3 (drop k v)" by (auto simp: includes_str_iff)
  from starts_with_bt3_length[OF k] have l: "k + 3 \<le> length v" by simp
  then have "take 3 (drop k (v @ bt3)) = take 3 (drop k v)" by simp
  with k have "starts_with bt3 (drop k (v @ bt3))" by (simp add: starts_with_def)
  moreover from assms l have "\<not> starts_with bt3 (drop k (v @ bt3))"
    by (simp add: index_of_Some_iff)
  ultimately show False by simp
qed

lemma replace_all_Nil: "replace_all False fenceOpenRegex [] = []"
proof -
  have "ms False fenceOpenRegex ([], Map.empty) = []"
    by (simp add: fenceOpenRegex_def bt3_def ms.simps)
  then show ?thesis by (subst replace_all.simps) simp
qed

lemma replace_open_closing:
  assumes "index_of bt3 (v @ bt3) = Some (length v)"
  shows "replace_all False fenceOpenRegex (v @ bt3) = v"
proof -
  from fenceOpen_first[of "[]" Map.empty] obtain rest where
    "ms False fenceOpenRegex (drop (length v) (v @ bt3), Map.empty) = ([], Map.empty) # rest"
    by (auto simp: strip_tag_def)
  moreover have "\<forall>k<length v. ms False fenceOpenRegex (drop k (v @ bt3), Map.empty) = []"
  proof (intro allI impI, rule ccontr)
    fix k assume k: "k < length v"
      and ne: "ms False fenceOpenRegex (drop k (v @ bt3), Map.empty) \<noteq> []"
    from ne have "starts_with bt3 (drop k (v @ bt3))"
      unfolding fenceOpenRegex_def by (rule ms_fence_head)
    with assms k show False by (simp add: index_of_Some_iff)
  qed
  ultimately have "search False fenceOpenRegex (v @ bt3) = Some (length v, [], Map.empty)"
    by (intro search_eqI) (simp_all del: ms.simps)
  then show ?thesis
    by (subst replace_all.simps) (simp add: replace_all_Nil bt3_def)
qed

lemma length_strip_tag: "length (strip_tag u) \<le> length u"
  using strip_tag_suffix[of u] by (metis length_append le_add2)

lemma replace_open_block:
  assumes "index_of bt3 (u @ bt3) = Some (length u)"
  shows "replace_all False fenceOpenRegex (bt3 @ u @ bt3) = strip_tag u"
proof -
  from fenceOpen_first[of "u @ bt3" Map.empty] obtain rest where
    "ms False fenceOpenRegex (drop 0 (bt3 @ u @ bt3), Map.empty) = (strip_tag u @ bt3, Map.empty) # rest"
    by (auto simp: strip_tag_append_bt3)
  then have sr: "search False fenceOpenRegex (bt3 @ u @ bt3) = Some (0, strip_tag u @ bt3, Map.empty)"
    by (intro search_eqI) (simp_all del: ms.simps)
  obtain a where a: "u = a @ strip_tag u" using strip_tag_suffix by blast
  from assms have "index_of bt3 ((a @ strip_tag u) @ bt3) = Some (length (a @ strip_tag u))"
    using a by simp
  from replace_open_closing[OF closed_suffix[OF this]]
  have r: "replace_all False fenceOpenRegex (strip_tag u @ bt3) = strip_tag u" .
  have "length (strip_tag u @ bt3) < length (bt3 @ u @ bt3)"
    using length_strip_tag[of u] by (simp add: bt3_def)
  with sr r show ?thesis by (subst replace_all.simps) simp
qed

lemma replace_fence_none:
  assumes "\<not> includes_str bt3 v"
  shows "replace_all False fenceRegex v = v"
proof -
  have "ms False fenceRegex (drop k v, Map.empty) = []" if "k \<le> length v" for k
    using assms that by (auto simp: fenceRegex_def ms_Chars_bt3 includes_str_iff simp del: ms.simps)
  then have "search False fenceRegex v = None" by (simp add: search_None_iff)
  then show ?thesis by (subst replace_all.simps) simp
qed

lemma index_of_split:
  assumes "index_of bt3 x = Some j"
  shows "x = take j x @ bt3 @ drop (j + 3) x \<and> index_of bt3 (take j x @ bt3) = Some (length (take j x))"
proof -
  from assms have j: "j \<le> length x" "starts_with bt3 (drop j x)"
    "\<forall>k<j. \<not> starts_with bt3 (drop k x)" by (simp_all add: index_of_Some_iff)
  from j(2) have "take 3 (drop j x) = bt3" by (simp add: starts_with_def)
  then have "drop j x = bt3 @ drop 3 (drop j x)" by (metis append_take_drop_id)
  then have e: "x = take j x @ bt3 @ drop (j + 3) x"
    by (metis append_take_drop_id drop_drop add.commute)
  have lt: "length (take j x) = j" using j(1) by simp
  have "\<not> starts_with bt3 (drop k (take j x @ bt3))" if "k < j" for k
  proof
    assume a: "starts_with bt3 (drop k (take j x @ bt3))"
    have "drop k x = drop k (take j x @ bt3) @ drop (j + 3) x"
      using e that lt by (metis append.assoc drop_append length_append less_imp_le_nat
          diff_is_0_eq' drop_0 trans_less_add1)
    with a have "starts_with bt3 (drop k x)"
      using starts_with_bt3_length[OF a] by (simp add: starts_with_def)
    with j(3) that show False by simp
  qed
  with e lt show ?thesis by (simp add: index_of_Some_iff)
qed

lemma fallback_match:
  assumes "index_of bt3 t = Some i" and "index_of bt3 (drop (i + 3) t) = Some j"
  shows "match_first False fallbackRegex t = Some (bt3 @ take j (drop (i + 3) t) @ bt3, Map.empty)"
proof -
  define u where "u = take j (drop (i + 3) t)"
  define s' where "s' = drop (j + 3) (drop (i + 3) t)"
  from assms(1) have i: "i \<le> length t" "starts_with bt3 (drop i t)"
    by (simp_all add: index_of_Some_iff)
  from i(2) have "take 3 (drop i t) = bt3" by (simp add: starts_with_def)
  then have "drop i t = bt3 @ drop 3 (drop i t)" by (metis append_take_drop_id)
  then have d: "drop i t = bt3 @ drop (i + 3) t" by (simp add: add.commute)
  from index_of_split[OF assms(2)] have x: "drop (i + 3) t = u @ bt3 @ s'"
    by (simp add: u_def s'_def)
  from d x have e: "drop i t = bt3 @ u @ bt3 @ s'" by simp
  then have "length (drop i t) = 6 + length u + length s'" by simp
  then have "length t - i - length s' = 6 + length u" by simp
  then have "take (length t - i - length s') (drop i t) = bt3 @ u @ bt3"
    unfolding e by simp
  moreover have "search False fallbackRegex t = Some (i, s', Map.empty)"
    using fallback_search[OF assms(1), of False] assms(2) by (simp add: s'_def)
  ultimately show ?thesis by (simp add: match_first_def u_def)
qed

text \<open>
  Claim C5, as the code has it.  When the scan finds no fence and the text contains a
  marker, the fallback looks for the next marker after the first one.  If there is one,
  the single artifact holds the text between the two, without the word characters and
  the one newline that follow the first marker, trimmed; it is named \<open>src/index.ts\<close>,
  its language is \<open>typescript\<close> and its order 0.  If there is none, no artifact is
  emitted.
\<close>

theorem fallback_block:
  assumes "extractCodeBlocks_loop t 0 0 = Inr []" and "index_of bt3 t = Some i"
  shows "extractCodeBlocks t =
           Inr (case index_of bt3 (drop (i + 3) t) of
                  None \<Rightarrow> []
                | Some j \<Rightarrow>
                    [\<lparr>filename = ''src/index.ts'',
                      code = trim (strip_tag (take j (drop (i + 3) t))),
                      language = ''typescript'',
                      order = 0\<rparr>])"
proof -
  from assms(2) have inc: "includes_str bt3 t"
    using index_of_None_iff[of bt3 t] by auto
  show ?thesis
  proof (cases "index_of bt3 (drop (i + 3) t)")
    case None
    with fallback_search[OF assms(2), of False] have "match_first False fallbackRegex t = None"
      by (simp add: match_first_def)
    with assms(1) inc None show ?thesis by (simp add: extractCodeBlocks_def)
  next
    case (Some j)
    define u where "u = take j (drop (i + 3) t)"
    from index_of_split[OF Some] have cl: "index_of bt3 (u @ bt3) = Some (length u)"
      by (simp add: u_def)
    have "replace_all False fenceOpenRegex (bt3 @ u @ bt3) = strip_tag u"
      using cl by (rule replace_open_block)
    moreover have "\<not> includes_str bt3 (strip_tag u)"
    proof -
      obtain a where a: "u = a @ strip_tag u" using strip_tag_suffix by blast
      from cl have "index_of bt3 ((a @ strip_tag u) @ bt3) = Some (length (a @ strip_tag u))"
        using a by simp
      from closed_no_marker[OF closed_suffix[OF this]] show ?thesis .
    qed
    ultimately have "replace_all False fenceRegex (replace_all False fenceOpenRegex (bt3 @ u @ bt3))
        = strip_tag u"
      by (simp add: replace_fence_none)
    with fallback_match[OF assms(2) Some] assms(1) inc Some show ?thesis
      by (simp add: extractCodeBlocks_def u_def)
  qed
qed

theorem fallback_block_witness:
  "extractCodeBlocks_loop (''x '' @ bt3 @ ''ts code'' @ bt3 @ '' more'') 0 0 = Inr []
   \<and> index_of bt3 (''x '' @ bt3 @ ''ts code'' @ bt3 @ '' more'') = Some 2
   \<and> extractCodeBlocks (''x '' @ bt3 @ ''ts code'' @ bt3 @ '' more'') =
       Inr [\<lparr>filename = ''src/index.ts'', code = ''code'', language = ''typescript'', order = 0\<rparr>]"
proof -
  define t where "t = ''x '' @ bt3 @ ''ts code'' @ bt3 @ '' more''"
  have h1: "extractCodeBlocks_loop t 0 0 = Inr []" unfolding t_def by code_simp
  have h2: "index_of bt3 t = Some 2" unfolding t_def by code_simp
  have h3: "index_of bt3 (drop (2 + 3) t) = Some 7" unfolding t_def by code_simp
  have h4: "trim (strip_tag (take 7 (drop (2 + 3) t))) = ''code''" unfolding t_def by code_simp
  from fallback_block[OF h1 h2] h3 h4
  have "extractCodeBlocks t =
      Inr [\<lparr>filename = ''src/index.ts'', code = ''code'', language = ''typescript'', order = 0\<rparr>]"
    by simp
  with h1 h2 show ?thesis unfolding t_def by simp
qed

text \<open>
  The claim as written fails: a single unterminated marker gives no artifact at all, and
  where the fallback does give one it is named \<open>src/index.ts\<close> and holds the text up to
  the next marker only, not up to the last.
\<close>

theorem fallback_block_counterexample:
  "extractCodeBlocks_loop (bt3 @ ''ts'' @ [nl] @ ''code'') 0 0 = Inr []
   \<and> includes_str bt3 (bt3 @ ''ts'' @ [nl] @ ''code'')
   \<and> extractCodeBlocks (bt3 @ ''ts'' @ [nl] @ ''code'') = Inr []
   \<and> extractCodeBlocks_loop (bt3 @ ''a b'' @ bt3 @ '' c '' @ bt3) 0 0 = Inr []
   \<and> extractCodeBlocks (bt3 @ ''a b'' @ bt3 @ '' c '' @ bt3) =
       Inr [\<lparr>filename = ''src/index.ts'', code = ''b'', language = ''typescript'', order = 0\<rparr>]"
  by code_simp

section \<open>The first match of the fence pattern at an opening marker\<close>

text \<open>The parts of \<open>codeBlockRegex\<close> after the opening marker.\<close>

definition bodyRegex :: re where
  "bodyRegex = Seq (Grp 3 (StarL any_char)) (Chars bt3)"

definition attrRegex :: re where
  "attrRegex = Seq (Chars (''filename='' @ [dq])) (Seq (Grp 2 (PlusG not_dq)) (Chars [dq]))"

definition afterTagRegex :: re where
  "afterTagRegex = Seq (StarG is_space) (Seq (Opt attrRegex) (Seq (Chars [nl]) bodyRegex))"

lemma codeBlockRegex_parts:
  "codeBlockRegex = Seq (Chars bt3) (Seq (Opt (Grp 1 (PlusG is_word))) afterTagRegex)"
  by (simp add: codeBlockRegex_def afterTagRegex_def attrRegex_def bodyRegex_def)

lemma starts_with_iff: "starts_with p s \<longleftrightarrow> (\<exists>s'. s = p @ s')"
  by (metis append_eq_conv_conj append_take_drop_id starts_with_def)

lemma ms_Chars_prefix: "ms False (Chars p) (p @ s, c) = [(s, c)]"
  using lit_match_cs[of p "p @ s" s] by (simp add: ms.simps)

lemma ms_Chars_fail: "\<not> starts_with p s \<Longrightarrow> ms False (Chars p) (s, c) = []"
proof -
  assume a: "\<not> starts_with p s"
  have "lit_match False p s = None"
  proof (cases "lit_match False p s")
    case (Some s')
    then have "s = p @ s'" by (simp add: lit_match_cs)
    with a show ?thesis by (simp add: starts_with_iff)
  qed simp
  then show ?thesis by (simp add: ms.simps)
qed

lemma ms_Seq_single: "ms ci a st = [x] \<Longrightarrow> ms ci (Seq a b) st = ms ci b x"
  by (simp add: ms.simps)

lemma ms_Seq_first:
  "ms ci a st = x # xs \<Longrightarrow> ms ci b x = v # vs \<Longrightarrow> \<exists>rest. ms ci (Seq a b) st = v # rest"
  by (simp add: ms.simps)

lemma ms_Seq_Nil: "ms ci a st = [] \<Longrightarrow> ms ci (Seq a b) st = []"
  by (simp add: ms.simps)

lemma ms_body_list:
  "ms False (Grp 3 (StarL any_char)) (s, c) =
     map (\<lambda>k. (drop k s, c(3 \<mapsto> take k s))) [0..<Suc (length s)]"
proof -
  have "ms False (Grp 3 (StarL any_char)) (s, c) =
        map (\<lambda>k. (drop k s, c(3 \<mapsto> take (length s - length (drop k s)) s))) [0..<Suc (length s)]"
    by (simp only: ms.simps takeWhile_any map_map comp_def prod.case)
  also have "\<dots> = map (\<lambda>k. (drop k s, c(3 \<mapsto> take k s))) [0..<Suc (length s)]"
    by (rule map_cong) (auto simp del: upt_Suc)
  finally show ?thesis .
qed

lemma body_first:
  assumes "index_of bt3 s = Some j"
  shows "\<exists>rest. ms False bodyRegex (s, c) = (drop (j + 3) s, c(3 \<mapsto> take j s)) # rest"
proof -
  from assms have j: "j \<le> length s" "starts_with bt3 (drop j s)"
    "\<forall>k<j. \<not> starts_with bt3 (drop k s)" by (simp_all add: index_of_Some_iff)
  have "ms False bodyRegex (s, c) =
    concat (map (\<lambda>k. ms False (Chars bt3) (drop k s, c(3 \<mapsto> take k s))) [0..<Suc (length s)])"
    unfolding bodyRegex_def by (simp only: ms.simps(7) ms_body_list map_map comp_def)
  also have "\<dots> = concat (map (\<lambda>k. if starts_with bt3 (drop k s)
                                       then [(drop (k + 3) s, c(3 \<mapsto> take k s))] else [])
                              [0..<Suc (length s)])"
    by (simp only: ms_Chars_bt3 drop_drop add.commute[of 3])
  finally have e: "ms False bodyRegex (s, c) = concat (map (\<lambda>k. if starts_with bt3 (drop k s)
                                       then [(drop (k + 3) s, c(3 \<mapsto> take k s))] else [])
                              [0..<Suc (length s)])" .
  show ?thesis unfolding e
    by (rule concat_map_upt_first[OF j(1)]) (use j in auto)
qed

lemma nl_body_first:
  assumes "index_of bt3 s = Some j"
  shows "\<exists>rest. ms False (Seq (Chars [nl]) bodyRegex) (nl # s, c)
                 = (drop (j + 3) s, c(3 \<mapsto> take j s)) # rest"
proof -
  have "ms False (Chars [nl]) (nl # s, c) = [(s, c)]"
    using ms_Chars_prefix[of "[nl]" s c] by simp
  from ms_Seq_single[OF this] body_first[OF assms] show ?thesis by simp
qed

lemma nl_body_fail:
  assumes "s = [] \<or> hd s \<noteq> nl"
  shows "ms False (Seq (Chars [nl]) bodyRegex) (s, c) = []"
proof -
  from assms have "\<not> starts_with [nl] s" by (cases s) (auto simp: starts_with_def)
  then show ?thesis by (intro ms_Seq_Nil ms_Chars_fail)
qed

lemma opt_attr_skip:
  assumes "\<not> starts_with (''filename='' @ [dq]) s"
  shows "ms False (Opt attrRegex) (s, c) = [(s, c)]"
proof -
  have "ms False attrRegex (s, c) = []"
    unfolding attrRegex_def using assms by (intro ms_Seq_Nil ms_Chars_fail)
  then show ?thesis by (simp add: ms.simps(5))
qed

lemma rev_upt_Suc1: "1 \<le> n \<Longrightarrow> rev [1..<Suc n] = n # rev [1..<n]"
  by simp

lemma attr_first:
  assumes "name \<noteq> []" and "dq \<notin> set name"
  shows "\<exists>rest. ms False attrRegex (''filename='' @ [dq] @ name @ dq # s, c) = (s, c(2 \<mapsto> name)) # rest"
proof -
  define n where "n = length name"
  define s1 where "s1 = name @ dq # s"
  have tw: "takeWhile not_dq s1 = name"
    using assms(2) by (auto simp add: s1_def takeWhile_tail not_dq_def)
  have n1: "1 \<le> n" using assms(1) by (cases name) (auto simp: n_def)
  have "ms False (PlusG not_dq) (s1, c) = map (\<lambda>k. (drop k s1, c)) (n # rev [1..<n])"
    by (simp only: ms.simps(3) tw n_def[symmetric] rev_upt_Suc1[OF n1])
  then have "\<exists>r. ms False (Grp 2 (PlusG not_dq)) (s1, c) = (dq # s, c(2 \<mapsto> name)) # r"
    by (simp add: ms.simps(8) s1_def n_def)
  then obtain r where g: "ms False (Grp 2 (PlusG not_dq)) (s1, c) = (dq # s, c(2 \<mapsto> name)) # r"
    by blast
  have "ms False (Chars [dq]) (dq # s, c(2 \<mapsto> name)) = (s, c(2 \<mapsto> name)) # []"
    using ms_Chars_prefix[of "[dq]" s] by simp
  from ms_Seq_first[OF g this] obtain r2 where
    h: "ms False (Seq (Grp 2 (PlusG not_dq)) (Chars [dq])) (s1, c) = (s, c(2 \<mapsto> name)) # r2"
    by blast
  have "ms False (Chars (''filename='' @ [dq])) ((''filename='' @ [dq]) @ s1, c) = [(s1, c)]"
    by (rule ms_Chars_prefix)
  from ms_Seq_single[OF this] h show ?thesis
    unfolding attrRegex_def s1_def by simp
qed

lemma opt_attr_first:
  assumes "name \<noteq> []" and "dq \<notin> set name"
  shows "\<exists>rest. ms False (Opt attrRegex) (''filename='' @ [dq] @ name @ dq # s, c)
                 = (s, c(2 \<mapsto> name)) # rest"
proof -
  from attr_first[OF assms] obtain r where
    "ms False attrRegex (''filename='' @ [dq] @ name @ dq # s, c) = (s, c(2 \<mapsto> name)) # r"
    by blast
  then show ?thesis by (simp add: ms.simps(5))
qed

text \<open>After the tag: greedy white space, then the attribute or not, the newline, the body.\<close>

lemma afterTag_list:
  "ms False afterTagRegex (s, c) =
     concat (map (\<lambda>k. ms False (Seq (Opt attrRegex) (Seq (Chars [nl]) bodyRegex)) (drop k s, c))
                 (rev [0..<Suc (length (takeWhile is_space s))]))"
  unfolding afterTagRegex_def by (simp only: ms.simps(7) ms.simps(2) map_map comp_def)

lemma afterTag_first:
  assumes "ms False (Seq (Opt attrRegex) (Seq (Chars [nl]) bodyRegex))
             (dropWhile is_space s, c) = v # vs"
  shows "\<exists>rest. ms False afterTagRegex (s, c) = v # rest"
proof -
  have "drop (length (takeWhile is_space s)) s = dropWhile is_space s"
    by (simp add: dropWhile_eq_drop)
  with assms show ?thesis
    unfolding afterTag_list by (simp only: rev_upt_Suc list.map concat.simps) simp
qed

lemma afterTag_fail:
  assumes "\<not> is_space x" and "x \<noteq> CHR ''f''" and "x \<noteq> nl"
  shows "ms False afterTagRegex (x # xs, c) = []"
proof -
  have tw: "takeWhile is_space (x # xs) = []" using assms(1) by simp
  have "\<not> starts_with (''filename='' @ [dq]) (x # xs)"
    using assms(2) by (simp add: starts_with_def)
  from ms_Seq_single[OF opt_attr_skip[OF this]] nl_body_fail[of "x # xs" c] assms(3)
  have "ms False (Seq (Opt attrRegex) (Seq (Chars [nl]) bodyRegex)) (x # xs, c) = []" by simp
  then show ?thesis unfolding afterTag_list tw by simp
qed

text \<open>The optional tag: each length of word characters from the longest down, then none.\<close>

lemma tag_list:
  "ms False (Seq (Opt (Grp 1 (PlusG is_word))) k) (s, c) =
     concat (map (\<lambda>m. ms False k (drop m s, c(1 \<mapsto> take m s)))
                 (rev [1..<Suc (length (takeWhile is_word s))]))
     @ ms False k (s, c)"
proof -
  define n where "n = length (takeWhile is_word s)"
  have nl: "n \<le> length s" unfolding n_def by (rule length_takeWhile_le)
  have "ms False (Grp 1 (PlusG is_word)) (s, c) =
        map (\<lambda>m. (drop m s, c(1 \<mapsto> take (length s - length (drop m s)) s))) (rev [1..<Suc n])"
    by (simp only: ms.simps map_map comp_def prod.case n_def)
  also have "\<dots> = map (\<lambda>m. (drop m s, c(1 \<mapsto> take m s))) (rev [1..<Suc n])"
    using nl by (intro map_cong) (auto simp del: upt_Suc)
  finally have g: "ms False (Grp 1 (PlusG is_word)) (s, c) =
      map (\<lambda>m. (drop m s, c(1 \<mapsto> take m s))) (rev [1..<Suc n])" .
  have "filter (\<lambda>(s', c'). length s' < length s)
          (map (\<lambda>m. (drop m s, c(1 \<mapsto> take m s))) (rev [1..<Suc n]))
        = map (\<lambda>m. (drop m s, c(1 \<mapsto> take m s))) (rev [1..<Suc n])"
    using nl by (intro filter_True) (auto simp del: upt_Suc)
  then have "ms False (Opt (Grp 1 (PlusG is_word))) (s, c) =
      map (\<lambda>m. (drop m s, c(1 \<mapsto> take m s))) (rev [1..<Suc n]) @ [(s, c)]"
    by (simp only: ms.simps(5) g)
  then show ?thesis
    by (simp only: ms.simps(7) map_append concat_append map_map comp_def n_def list.map concat.simps append_Nil2)
qed

lemma concat_map_rev_upt_first:
  assumes "1 \<le> m" and "m \<le> n" and "g m = v # vs"
    and "\<forall>k. m < k \<and> k \<le> n \<longrightarrow> g k = []"
  shows "\<exists>rest. concat (map g (rev [1..<Suc n])) = v # rest"
proof -
  have "[1..<m + (Suc n - m)] = [1..<m] @ [m..<m + (Suc n - m)]"
    using assms(1) by (intro upt_add_eq_append) simp
  moreover have "[m..<Suc n] = m # [Suc m..<Suc n]"
    using assms(2) by (intro upt_conv_Cons) simp
  ultimately have "[1..<Suc n] = [1..<m] @ m # [Suc m..<Suc n]"
    using assms(2) by (simp del: upt_Suc)
  then have eq: "rev [1..<Suc n] = rev [Suc m..<Suc n] @ m # rev [1..<m]" by simp
  have z: "concat (map g (rev [Suc m..<Suc n])) = []"
    using assms(4) by (auto simp del: upt_Suc)
  have "concat (map g (rev [1..<Suc n])) = v # (vs @ concat (map g (rev [1..<m])))"
    by (simp only: eq map_append concat_append z list.map concat.simps append_Nil assms(3) append_Cons)
  then show ?thesis by blast
qed

lemma concat_map_rev_upt_Nil:
  assumes "\<forall>k. 1 \<le> k \<and> k \<le> n \<longrightarrow> g k = []"
  shows "concat (map g (rev [1..<Suc n])) = []"
  using assms by (auto simp del: upt_Suc)

lemma space_not_word: "is_space x \<Longrightarrow> \<not> is_word x"
  by (auto simp: is_space_def is_word_def)

lemma tag_overrun_char:
  assumes "1 \<le> d" and "d \<le> 8"
  shows "\<exists>x xs. drop d (''filename='' @ r) = x # xs \<and> \<not> is_space x \<and> x \<noteq> CHR ''f'' \<and> x \<noteq> nl"
proof -
  from assms have "d = 1 \<or> d = 2 \<or> d = 3 \<or> d = 4 \<or> d = 5 \<or> d = 6 \<or> d = 7 \<or> d = 8" by arith
  then show ?thesis
    by (elim disjE) (simp_all add: is_space_def nl_def)
qed

lemma takeWhile_word_filename: "takeWhile is_word (''filename='' @ r) = ''filename''"
  by (simp add: is_word_def)

lemma tag_overrun:
  assumes lang: "\<forall>x\<in>set lang. is_word x" and sp: "\<forall>x\<in>set sp. is_space x"
    and k: "length lang < k" "k \<le> length (takeWhile is_word (lang @ sp @ ''filename='' @ r))"
  shows "ms False afterTagRegex (drop k (lang @ sp @ ''filename='' @ r), c) = []"
proof (cases sp)
  case (Cons a sp')
  with sp have "\<not> is_word a" by (simp add: space_not_word)
  then have "takeWhile is_word (lang @ sp @ ''filename='' @ r) = lang"
    using lang by (simp add: Cons takeWhile_append2)
  with k show ?thesis by simp
next
  case Nil
  have "takeWhile is_word (lang @ ''filename='' @ r) = lang @ ''filename''"
    using lang takeWhile_word_filename[of r] by (simp only: takeWhile_append2)
  with k Nil have d: "1 \<le> k - length lang" "k - length lang \<le> 8" by simp_all
  from tag_overrun_char[OF d, of r] obtain x xs where
    x: "drop (k - length lang) (''filename='' @ r) = x # xs"
       "\<not> is_space x" "x \<noteq> CHR ''f''" "x \<noteq> nl" by blast
  have "drop k (lang @ sp @ ''filename='' @ r) = x # xs"
    using k(1) x(1) Nil by simp
  with afterTag_fail[OF x(2,3,4)] show ?thesis by simp
qed

lemma afterTag_attr_first:
  assumes sp: "\<forall>x\<in>set sp. is_space x" and name: "name \<noteq> []" "dq \<notin> set name"
    and close: "index_of bt3 rest = Some j"
  shows "\<exists>r. ms False afterTagRegex (sp @ ''filename='' @ [dq] @ name @ dq # nl # rest, c)
              = (drop (j + 3) rest, c(2 \<mapsto> name, 3 \<mapsto> take j rest)) # r"
proof -
  define A where "A = ''filename='' @ [dq] @ name @ dq # nl # rest"
  have "\<not> is_space (hd A)" by (simp add: A_def is_space_def)
  moreover have "A \<noteq> []" by (simp add: A_def)
  ultimately have dw: "dropWhile is_space (sp @ A) = A"
    using sp by (cases A) (simp_all add: dropWhile_append3)
  from opt_attr_first[OF name, of "nl # rest" c] obtain r1 where
    o: "ms False (Opt attrRegex) (A, c) = (nl # rest, c(2 \<mapsto> name)) # r1"
    unfolding A_def by blast
  from nl_body_first[OF close, of "c(2 \<mapsto> name)"] obtain r2 where
    b: "ms False (Seq (Chars [nl]) bodyRegex) (nl # rest, c(2 \<mapsto> name))
        = (drop (j + 3) rest, c(2 \<mapsto> name, 3 \<mapsto> take j rest)) # r2" by blast
  from ms_Seq_first[OF o b] obtain r3 where
    "ms False (Seq (Opt attrRegex) (Seq (Chars [nl]) bodyRegex)) (A, c)
       = (drop (j + 3) rest, c(2 \<mapsto> name, 3 \<mapsto> take j rest)) # r3" by blast
  then have "ms False (Seq (Opt attrRegex) (Seq (Chars [nl]) bodyRegex)) (dropWhile is_space (sp @ A), c)
       = (drop (j + 3) rest, c(2 \<mapsto> name, 3 \<mapsto> take j rest)) # r3"
    by (simp only: dw)
  from afterTag_first[OF this] show ?thesis unfolding A_def by simp
qed

lemma explicit_attr_first:
  assumes lang: "\<forall>x\<in>set lang. is_word x" and sp: "\<forall>x\<in>set sp. is_space x"
    and name: "name \<noteq> []" "dq \<notin> set name"
    and close: "index_of bt3 rest = Some j"
  shows "\<exists>c' tail.
           ms False codeBlockRegex
              (bt3 @ lang @ sp @ ''filename='' @ [dq] @ name @ dq # nl # rest, Map.empty)
             = (drop (j + 3) rest, c') # tail
           \<and> cap_or c' 1 ''typescript'' = (if lang = [] then ''typescript'' else lang)
           \<and> c' 2 = Some name \<and> c' 3 = Some (take j rest)"
proof -
  define r where "r = [dq] @ name @ dq # nl # rest"
  define s1 where "s1 = lang @ sp @ ''filename='' @ r"
  define n where "n = length (takeWhile is_word s1)"
  define g where "g = (\<lambda>m. ms False afterTagRegex (drop m s1, Map.empty(1 \<mapsto> take m s1)))"
  have s1e: "s1 = lang @ sp @ ''filename='' @ [dq] @ name @ dq # nl # rest"
    by (simp add: s1_def r_def)
  have top: "ms False codeBlockRegex (bt3 @ s1, Map.empty)
      = concat (map g (rev [1..<Suc n])) @ ms False afterTagRegex (s1, Map.empty)"
    unfolding codeBlockRegex_parts
    by (simp only: ms_Seq_single[OF ms_Chars_prefix] tag_list g_def n_def)
  have fail: "g k = []" if "length lang < k" "k \<le> n" for k
    unfolding g_def s1_def using tag_overrun[OF lang sp that(1)] that(2)
    by (simp add: n_def s1_def)
  have ln: "length lang \<le> n"
  proof -
    have "takeWhile is_word s1 = lang @ takeWhile is_word (sp @ ''filename='' @ r)"
      unfolding s1_def using lang by (simp only: takeWhile_append2)
    then show ?thesis by (simp add: n_def)
  qed
  show ?thesis
  proof (cases "lang = []")
    case True
    have "concat (map g (rev [1..<Suc n])) = []"
      using fail True by (intro concat_map_rev_upt_Nil) auto
    moreover from afterTag_attr_first[OF sp name close, of Map.empty] True obtain r1 where
      "ms False afterTagRegex (s1, Map.empty)
         = (drop (j + 3) rest, Map.empty(2 \<mapsto> name, 3 \<mapsto> take j rest)) # r1"
      by (auto simp: s1e)
    ultimately have "ms False codeBlockRegex (bt3 @ s1, Map.empty)
         = (drop (j + 3) rest, Map.empty(2 \<mapsto> name, 3 \<mapsto> take j rest)) # r1"
      using top by simp
    then show ?thesis using True unfolding s1e
      by (intro exI[of _ "Map.empty(2 \<mapsto> name, 3 \<mapsto> take j rest)"] exI[of _ r1])
         (simp add: cap_or_def)
  next
    case False
    then have m1: "1 \<le> length lang" by (cases lang) auto
    from afterTag_attr_first[OF sp name close, of "Map.empty(1 \<mapsto> lang)"] obtain r1 where
      gl: "g (length lang) = (drop (j + 3) rest, Map.empty(1 \<mapsto> lang, 2 \<mapsto> name, 3 \<mapsto> take j rest)) # r1"
      by (auto simp: g_def s1e)
    from concat_map_rev_upt_first[where g = g and m = "length lang" and n = n, OF m1 ln gl] fail obtain r2 where
      "concat (map g (rev [1..<Suc n]))
         = (drop (j + 3) rest, Map.empty(1 \<mapsto> lang, 2 \<mapsto> name, 3 \<mapsto> take j rest)) # r2"
      by auto
    with top have "ms False codeBlockRegex (bt3 @ s1, Map.empty)
         = (drop (j + 3) rest, Map.empty(1 \<mapsto> lang, 2 \<mapsto> name, 3 \<mapsto> take j rest))
             # (r2 @ ms False afterTagRegex (s1, Map.empty))"
      by simp
    then show ?thesis using False unfolding s1e
      by (intro exI[of _ "Map.empty(1 \<mapsto> lang, 2 \<mapsto> name, 3 \<mapsto> take j rest)"]
                exI[of _ "r2 @ ms False afterTagRegex (lang @ sp @ ''filename='' @ [dq] @ name @ dq # nl # rest, Map.empty)"])
         (simp add: cap_or_def)
  qed
qed

lemma search_at_first_marker:
  assumes first: "index_of bt3 (pre @ f) = Some (length pre)"
    and m: "ms False codeBlockRegex (f, Map.empty) = (s', c') # tail"
  shows "search False codeBlockRegex (pre @ f) = Some (length pre, s', c')"
proof (rule search_eqI)
  show "length pre \<le> length (pre @ f)" by simp
  show "ms False codeBlockRegex (drop (length pre) (pre @ f), Map.empty) = (s', c') # tail"
    using m by simp
  show "\<forall>k<length pre. ms False codeBlockRegex (drop k (pre @ f), Map.empty) = []"
  proof (intro allI impI, rule ccontr)
    fix k assume k: "k < length pre"
      and ne: "ms False codeBlockRegex (drop k (pre @ f), Map.empty) \<noteq> []"
    from ne have "starts_with bt3 (drop k (pre @ f))"
      unfolding codeBlockRegex_def by (rule ms_fence_head)
    with first k show False by (simp add: index_of_Some_iff)
  qed
qed

text \<open>
  Claim C3.  The text is: some prose, the opening marker (the first marker of the text), a
  language tag or none, white space or none, the attribute \<^verbatim>\<open>filename="name"\<close>, a newline,
  and then the rest, in which a closing marker occurs and no marker after it.  The
  extraction returns exactly one artifact; its file name is the name of the attribute,
  whatever the prose before the fence says, and its order is 0.
\<close>

theorem explicit_filename:
  assumes first: "index_of bt3 (pre @ bt3 @ lang @ sp @ ''filename='' @ [dq] @ name @ [dq] @ [nl] @ rest)
                    = Some (length pre)"
    and lang: "\<forall>x\<in>set lang. is_word x"
    and sp: "\<forall>x\<in>set sp. is_space x"
    and name: "name \<noteq> []" "dq \<notin> set name"
    and close: "index_of bt3 rest = Some j"
    and last: "\<not> includes_str bt3 (drop (j + 3) rest)"
  shows "extractCodeBlocks (pre @ bt3 @ lang @ sp @ ''filename='' @ [dq] @ name @ [dq] @ [nl] @ rest)
           = Inr [\<lparr>filename = name,
                   code = trim (take j rest),
                   language = (if lang = [] then ''typescript'' else lang),
                   order = 0\<rparr>]"
proof -
  define f where "f = bt3 @ lang @ sp @ ''filename='' @ [dq] @ name @ dq # nl # rest"
  define t where "t = pre @ f"
  define s' where "s' = drop (j + 3) rest"
  define e where "e = length t - length s'"
  have te: "pre @ bt3 @ lang @ sp @ ''filename='' @ [dq] @ name @ [dq] @ [nl] @ rest = t"
    by (simp add: t_def f_def)
  from explicit_attr_first[OF lang sp name close] obtain c' tail where
    m: "ms False codeBlockRegex (f, Map.empty) = (s', c') # tail"
    and c1: "cap_or c' 1 ''typescript'' = (if lang = [] then ''typescript'' else lang)"
    and c2: "c' 2 = Some name" and c3: "c' 3 = Some (take j rest)"
    unfolding f_def s'_def by blast
  from first have first': "index_of bt3 (pre @ f) = Some (length pre)"
    by (simp add: f_def)
  have sr: "search False codeBlockRegex t = Some (length pre, s', c')"
    unfolding t_def using first' m by (rule search_at_first_marker)
  then have ex: "exec False codeBlockRegex t 0 = Some (length pre, e, c')"
    by (simp add: exec_def e_def)
  from exec_codeBlock[OF ex] have adv: "\<not> e \<le> 0" and le: "e \<le> length t" by auto
  have suf: "\<exists>x. t = x @ s'"
  proof -
    have "rest = take (j + 3) rest @ s'" by (simp add: s'_def)
    then have "t = (pre @ bt3 @ lang @ sp @ ''filename='' @ [dq] @ name @ [dq] @ [nl] @ take (j + 3) rest) @ s'"
      by (simp add: t_def f_def)
    then show ?thesis by blast
  qed
  then obtain x where x: "t = x @ s'" by blast
  then have de: "drop e t = s'" by (simp add: e_def)
  have "search False codeBlockRegex (drop 0 s') = None"
    unfolding codeBlockRegex_def using last[folded s'_def] by (rule search_fence_None)
  with de le have "exec False codeBlockRegex t e = None" by (simp add: exec_def)
  then have l1: "extractCodeBlocks_loop t e (Suc 0) = Inr []"
    by (subst extractCodeBlocks_loop.simps) simp
  have fn: "block_filename (cap_or c' 2 []) (substring t 0 (length pre))
              (cap_or c' 1 ''typescript'') = name"
    using name(1) by (simp add: cap_or_def c2 block_filename_def)
  have "extractCodeBlocks_loop t 0 0 =
          Inr [\<lparr>filename = name, code = trim (take j rest),
                language = (if lang = [] then ''typescript'' else lang), order = 0\<rparr>]"
    using c1 fn adv by (subst extractCodeBlocks_loop.simps) (simp add: ex c3 l1 Let_def)
  then show ?thesis unfolding te by (simp add: extractCodeBlocks_def)
qed

theorem explicit_filename_witness:
  "index_of bt3 (''See: '' @ bt3 @ ''ts'' @ '' '' @ ''filename='' @ [dq] @ ''x.ts'' @ [dq] @ [nl]
                  @ (''let a = 1'' @ [nl] @ bt3 @ '' done'')) = Some (length ''See: '')
   \<and> index_of bt3 (''let a = 1'' @ [nl] @ bt3 @ '' done'') = Some 10
   \<and> extractCodeBlocks (''See: '' @ bt3 @ ''ts'' @ '' '' @ ''filename='' @ [dq] @ ''x.ts'' @ [dq] @ [nl]
                  @ (''let a = 1'' @ [nl] @ bt3 @ '' done''))
       = Inr [\<lparr>filename = ''x.ts'', code = ''let a = 1'', language = ''ts'', order = 0\<rparr>]"
proof -
  have h1: "index_of bt3 (''See: '' @ bt3 @ ''ts'' @ '' '' @ ''filename='' @ [dq] @ ''x.ts'' @ [dq] @ [nl]
                  @ (''let a = 1'' @ [nl] @ bt3 @ '' done'')) = Some (length ''See: '')"
    by code_simp
  have h2: "\<forall>x\<in>set ''ts''. is_word x" by (simp add: is_word_def)
  have h3: "\<forall>x\<in>set '' ''. is_space x" by (simp add: is_space_def)
  have h4: "''x.ts'' \<noteq> []" "dq \<notin> set ''x.ts''" by (simp_all add: dq_def)
  have h5: "index_of bt3 (''let a = 1'' @ [nl] @ bt3 @ '' done'') = Some 10" by code_simp
  have h6: "\<not> includes_str bt3 (drop (10 + 3) (''let a = 1'' @ [nl] @ bt3 @ '' done''))"
    by code_simp
  have h7: "trim (take 10 (''let a = 1'' @ [nl] @ bt3 @ '' done'')) = ''let a = 1''"
    by code_simp
  from explicit_filename[OF h1 h2 h3 h4 h5 h6] h7
  have "extractCodeBlocks (''See: '' @ bt3 @ ''ts'' @ '' '' @ ''filename='' @ [dq] @ ''x.ts'' @ [dq] @ [nl]
                  @ (''let a = 1'' @ [nl] @ bt3 @ '' done''))
       = Inr [\<lparr>filename = ''x.ts'', code = ''let a = 1'', language = ''ts'', order = 0\<rparr>]"
    by simp
  with h1 h5 show ?thesis by simp
qed

section \<open>Extracting again from the explanation\<close>

text \<open>
  The contents of the blocks that the scan finds in a text, as a function of the text
  still to be scanned: the \<open>code\<close> fields of \<open>extractCodeBlocks_loop\<close> do not depend on
  what lies before \<open>lastIndex\<close>.
\<close>

function scan_codes :: "string \<Rightarrow> string list" where
  "scan_codes s =
     (case search False codeBlockRegex s of
        None \<Rightarrow> []
      | Some (i, s', c) \<Rightarrow>
          if length s' < length s
          then trim (case c 3 of None \<Rightarrow> [] | Some body \<Rightarrow> body) # scan_codes s'
          else [])"
  by pat_completeness auto
termination
  by (relation "measure length") auto

declare scan_codes.simps [simp del]

text \<open>A stretch of text in which no marker starts, whatever follows it.\<close>

definition sealed :: "string \<Rightarrow> bool" where
  "sealed g = (\<not> includes_str bt3 g \<and> (g = [] \<or> last g \<noteq> bt))"

lemma starts_with_bt3_Cons:
  "starts_with bt3 (x # xs) \<longleftrightarrow> x = bt \<and> (\<exists>ys. xs = bt # bt # ys)"
  by (cases xs; cases "tl xs") (auto simp: starts_with_def bt3_def)

lemma sealed_no_start:
  assumes "sealed g" and "k < length g"
  shows "\<not> starts_with bt3 (drop k (g @ s2))"
  using assms
proof (induction g arbitrary: k)
  case Nil
  then show ?case by simp
next
  case (Cons x g)
  show ?case
  proof (cases k)
    case 0
    show ?thesis
    proof
      assume "starts_with bt3 (drop k ((x # g) @ s2))"
      then obtain ys where x: "x = bt" and ys: "g @ s2 = bt # bt # ys"
        using 0 by (auto simp: starts_with_bt3_Cons)
      from Cons.prems(1) have ni: "\<not> starts_with bt3 (x # g)" and l: "last (x # g) \<noteq> bt"
        by (auto simp: sealed_def)
      show False
      proof (cases g)
        case Nil
        with l x show False by simp
      next
        case (Cons y g')
        note g = this
        with ys have y: "y = bt" and ys2: "g' @ s2 = bt # ys" by auto
        show False
        proof (cases g')
          case Nil
          with l g y show False by simp
        next
          case (Cons z g'')
          with ys2 have "z = bt" by auto
          with x y g Cons ni show False by (simp add: starts_with_bt3_Cons)
        qed
      qed
    qed
  next
    case (Suc k')
    with Cons.prems(2) have k': "k' < length g" by simp
    then have gne: "g \<noteq> []" by auto
    from Cons.prems(1) gne have "sealed g" by (auto simp: sealed_def)
    from Cons.IH[OF this k'] Suc show ?thesis by simp
  qed
qed

lemma sealed_Nil [simp]: "sealed []"
  by (simp add: sealed_def bt3_def)

lemma marker_free_append:
  assumes "sealed a" and "\<not> includes_str bt3 b"
  shows "\<not> includes_str bt3 (a @ b)"
proof
  assume "includes_str bt3 (a @ b)"
  then obtain k where k: "starts_with bt3 (drop k (a @ b))" by (auto simp: includes_str_iff)
  show False
  proof (cases "k < length a")
    case True
    from sealed_no_start[OF assms(1) True] k show False by simp
  next
    case False
    with k have s: "starts_with bt3 (drop (k - length a) b)" by simp
    from starts_with_bt3_length[OF s] have "k - length a \<le> length b" by simp
    with s assms(2) show False by (auto simp: includes_str_iff)
  qed
qed

lemma sealed_append:
  assumes "sealed a" and "sealed b"
  shows "sealed (a @ b)"
proof (cases "b = []")
  case True
  with assms show ?thesis by simp
next
  case False
  from assms have "\<not> includes_str bt3 (a @ b)"
    by (intro marker_free_append) (auto simp: sealed_def)
  moreover from assms(2) False have "last (a @ b) \<noteq> bt" by (simp add: sealed_def)
  ultimately show ?thesis by (simp add: sealed_def)
qed

lemma sealed_single: "x \<noteq> bt \<Longrightarrow> sealed [x]"
  by (simp add: sealed_def starts_with_def bt3_def)

lemma sealed_snoc:
  assumes "\<not> includes_str bt3 u" and "x \<noteq> bt"
  shows "sealed (u @ [x])"
proof -
  have "\<not> includes_str bt3 (u @ [x])"
  proof
    assume "includes_str bt3 (u @ [x])"
    then obtain k where k: "starts_with bt3 (drop k (u @ [x]))" by (auto simp: includes_str_iff)
    from starts_with_bt3_length[OF k] have l: "k + 3 \<le> length u + 1" by simp
    from k have t: "take 3 (drop k (u @ [x])) = bt3" by (simp add: starts_with_def)
    show False
    proof (cases "k + 3 \<le> length u")
      case True
      then have "take 3 (drop k (u @ [x])) = take 3 (drop k u)" by simp
      with t have "starts_with bt3 (drop k u)" by (simp add: starts_with_def)
      with assms(1) True show False by (auto simp: includes_str_iff)
    next
      case False
      with l have kk: "k + 2 = length u" by simp
      then have d: "drop k (u @ [x]) = drop k u @ [x]" and l2: "length (drop k u) = Suc (Suc 0)"
        by simp_all
      have "\<exists>a b. xs = [a, b]" if "length xs = Suc (Suc 0)" for xs :: string
        using that by (auto simp: length_Suc_conv)
      from this[OF l2] obtain a b where "drop k u = [a, b]" by blast
      with d have e: "drop k (u @ [x]) = [a, b, x]" by simp
      from t[unfolded e] have "x = bt" by (simp add: bt3_def)
      with assms(2) show False by simp
    qed
  qed
  with assms(2) show ?thesis by (simp add: sealed_def)
qed

lemma search_codeBlock_shorter:
  assumes "search False codeBlockRegex s = Some (i, s', c)"
  shows "length s' + 6 + i \<le> length s \<and> c 3 \<noteq> None"
proof -
  from search_Some[OF assms] have i: "i \<le> length s"
    and m: "(s', c) \<in> set (ms False codeBlockRegex (drop i s, Map.empty))" by auto
  from codeBlock_match_shape[OF m] obtain u where
    c3: "c 3 \<noteq> None" and sh: "drop i s = bt3 @ u @ bt3 @ s'" by auto
  from sh have "length (drop i s) = 6 + length u + length s'" by simp
  with i c3 show ?thesis by simp
qed

lemma search_skip:
  assumes "\<forall>k<length g. ms ci r (drop k (g @ s2), Map.empty) = []"
  shows "search ci r (g @ s2) = map_option (\<lambda>(i, s', c). (length g + i, s', c)) (search ci r s2)"
  using assms
proof (induction g)
  case Nil
  then show ?case by (cases "search ci r s2") auto
next
  case (Cons x g)
  from Cons.prems have z: "ms ci r ((x # g) @ s2, Map.empty) = []" by (metis drop0 length_greater_0_conv list.distinct(1))
  have "\<forall>k<length g. ms ci r (drop k (g @ s2), Map.empty) = []"
    using Cons.prems by (metis Suc_less_eq append_Cons drop_Suc_Cons length_Cons)
  from Cons.IH[OF this] z show ?case
    by (cases "search ci r s2") auto
qed

lemma search_skip_sealed:
  assumes "sealed g"
  shows "search False codeBlockRegex (g @ s2)
           = map_option (\<lambda>(i, s', c). (length g + i, s', c)) (search False codeBlockRegex s2)"
proof (rule search_skip, intro allI impI, rule ccontr)
  fix k assume k: "k < length g"
    and ne: "ms False codeBlockRegex (drop k (g @ s2), Map.empty) \<noteq> []"
  from ne have "starts_with bt3 (drop k (g @ s2))"
    unfolding codeBlockRegex_def by (rule ms_fence_head)
  with sealed_no_start[OF assms k] show False by simp
qed

lemma scan_codes_skip:
  assumes "sealed g"
  shows "scan_codes (g @ s2) = scan_codes s2"
proof (cases "search False codeBlockRegex s2")
  case None
  with search_skip_sealed[OF assms, of s2] show ?thesis
    by (simp add: scan_codes.simps[of "g @ s2"] scan_codes.simps[of s2])
next
  case (Some x)
  obtain i s' c where x: "x = (i, s', c)" by (cases x)
  from search_codeBlock_shorter[OF Some[unfolded x]] have "length s' < length s2" by simp
  with search_skip_sealed[OF assms, of s2] Some x show ?thesis
    by (simp add: scan_codes.simps[of "g @ s2"] scan_codes.simps[of s2])
qed

lemma scan_codes_marker_free:
  assumes "\<not> includes_str bt3 s"
  shows "scan_codes s = []"
proof -
  have "search False codeBlockRegex (drop 0 s) = None"
    unfolding codeBlockRegex_def using assms by (rule search_fence_None)
  then show ?thesis by (subst scan_codes.simps) simp
qed

text \<open>The fence that \<open>preserveOrderedContent\<close> writes for a block, seen by the scan.\<close>

lemma trim_snoc_space:
  assumes "is_space x"
  shows "trim (u @ [x]) = trim u"
proof (cases "\<forall>y\<in>set u. is_space y")
  case True
  then have "trim u = []" by (simp add: trim_eq_Nil)
  moreover from True assms have "trim (u @ [x]) = []" by (simp add: trim_eq_Nil)
  ultimately show ?thesis by simp
next
  case False
  then have "dropWhile is_space (u @ [x]) = dropWhile is_space u @ [x]"
    by (auto simp: dropWhile_append)
  with assms show ?thesis by (simp add: trim_def)
qed

lemma nl_space: "is_space nl"
  by (simp add: is_space_def nl_def)

lemma nl_not_word: "\<not> is_word nl"
  by (simp add: is_word_def nl_def)

lemma nl_not_bt: "nl \<noteq> bt"
  by (simp add: nl_def bt_def)

lemma not_starts_with_straddle:
  assumes "\<not> starts_with p u" and "x \<notin> set p"
  shows "\<not> starts_with p (u @ x # y)"
proof
  assume "starts_with p (u @ x # y)"
  then obtain s' where e: "u @ x # y = p @ s'" by (auto simp: starts_with_iff)
  then consider z where "u = p @ z" | z where "p = u @ z" "z \<noteq> []" "x # y = z @ s'"
    by (auto simp: append_eq_append_conv2) (metis append.right_neutral)
  then show False
  proof cases
    case 1
    with assms(1) show False by (simp add: starts_with_iff)
  next
    case 2
    then have "hd z = x" by (cases z) auto
    with 2 have "x \<in> set p" by (cases z) auto
    with assms(2) show False by simp
  qed
qed

lemma attr_prefix_no_nl: "nl \<notin> set (''filename='' @ [dq])"
  by (simp add: nl_def dq_def)

lemma index_of_after_sealed:
  assumes "sealed g"
  shows "index_of bt3 (g @ bt3 @ s2) = Some (length g)"
  using sealed_no_start[OF assms] by (simp add: index_of_Some_iff)

lemma afterTag_canonical:
  assumes src: "trim src = src" "\<not> includes_str bt3 src"
    "\<not> starts_with (''filename='' @ [dq]) src"
  shows "\<exists>r body. ms False afterTagRegex (nl # src @ nl # bt3 @ s2, c)
                     = (s2, c(3 \<mapsto> body)) # r \<and> trim body = src"
proof (cases src)
  case Nil
  have tw: "takeWhile is_space (nl # nl # bt3 @ s2) = [nl, nl]"
    by (simp add: nl_space bt3_def bt_not_space)
  have ns: "\<not> starts_with (''filename='' @ [dq]) (bt3 @ s2)"
    "\<not> starts_with (''filename='' @ [dq]) (nl # bt3 @ s2)"
    by (simp_all add: starts_with_def bt3_def bt_def nl_def)
  have f2: "ms False (Seq (Opt attrRegex) (Seq (Chars [nl]) bodyRegex)) (bt3 @ s2, c) = []"
    using ms_Seq_single[OF opt_attr_skip[OF ns(1)]] nl_body_fail[of "bt3 @ s2" c]
    by (simp add: bt3_def bt_not_nl)
  have "index_of bt3 (bt3 @ s2) = Some 0" by (simp add: index_of_Some_iff)
  from nl_body_first[OF this, of c] obtain r1 where
    "ms False (Seq (Chars [nl]) bodyRegex) (nl # bt3 @ s2, c) = (s2, c(3 \<mapsto> [])) # r1"
    by auto
  with ms_Seq_single[OF opt_attr_skip[OF ns(2)]] have
    f1: "ms False (Seq (Opt attrRegex) (Seq (Chars [nl]) bodyRegex)) (nl # bt3 @ s2, c)
           = (s2, c(3 \<mapsto> [])) # r1" by simp
  have "\<exists>r. ms False afterTagRegex (nl # nl # bt3 @ s2, c) = (s2, c(3 \<mapsto> [])) # r"
    unfolding afterTag_list tw using f2 f1 by simp
  then obtain r where "ms False afterTagRegex (nl # src @ nl # bt3 @ s2, c) = (s2, c(3 \<mapsto> [])) # r"
    using Nil by auto
  moreover have "trim [] = src" using Nil by simp
  ultimately show ?thesis by blast
next
  case (Cons x src')
  from trim_ends[of src] src(1) Cons have nx: "\<not> is_space x" by simp
  define X where "X = src @ nl # bt3 @ s2"
  have tw: "takeWhile is_space (nl # X) = [nl]"
    using nx by (simp add: nl_space X_def Cons)
  have ns: "\<not> starts_with (''filename='' @ [dq]) X"
    unfolding X_def using src(3) attr_prefix_no_nl by (rule not_starts_with_straddle)
  have hx: "hd X \<noteq> nl" using nx nl_space by (auto simp: X_def Cons)
  have f1: "ms False (Seq (Opt attrRegex) (Seq (Chars [nl]) bodyRegex)) (X, c) = []"
    using ms_Seq_single[OF opt_attr_skip[OF ns]] nl_body_fail[of X c] hx by simp
  have ns0: "\<not> starts_with (''filename='' @ [dq]) (nl # X)"
    by (simp add: starts_with_def nl_def)
  have "sealed (src @ [nl])" using src(2) nl_not_bt by (rule sealed_snoc)
  from index_of_after_sealed[OF this, of s2] have "index_of bt3 X = Some (length src + 1)"
    by (simp add: X_def)
  from nl_body_first[OF this, of c] obtain r0 where
    "ms False (Seq (Chars [nl]) bodyRegex) (nl # X, c) = (s2, c(3 \<mapsto> src @ [nl])) # r0"
    by (auto simp: X_def)
  with ms_Seq_single[OF opt_attr_skip[OF ns0]] have
    f0: "ms False (Seq (Opt attrRegex) (Seq (Chars [nl]) bodyRegex)) (nl # X, c)
           = (s2, c(3 \<mapsto> src @ [nl])) # r0" by simp
  have "\<exists>r. ms False afterTagRegex (nl # X, c) = (s2, c(3 \<mapsto> src @ [nl])) # r"
    unfolding afterTag_list tw using f1 f0 by simp
  moreover have "trim (src @ [nl]) = src"
    using trim_snoc_space[OF nl_space, of src] src(1) by simp
  ultimately show ?thesis unfolding X_def by auto
qed

lemma canonical_first:
  assumes lang: "lang \<noteq> []" "\<forall>x\<in>set lang. is_word x"
    and src: "trim src = src" "\<not> includes_str bt3 src"
      "\<not> starts_with (''filename='' @ [dq]) src"
  shows "\<exists>c' tail body.
           ms False codeBlockRegex (bt3 @ lang @ nl # src @ nl # bt3 @ s2, Map.empty)
             = (s2, c') # tail \<and> c' 3 = Some body \<and> trim body = src"
proof -
  define s1 where "s1 = lang @ nl # src @ nl # bt3 @ s2"
  define g where "g = (\<lambda>m. ms False afterTagRegex (drop m s1, Map.empty(1 \<mapsto> take m s1)))"
  have tw: "takeWhile is_word s1 = lang"
    unfolding s1_def using lang(2) by (simp add: takeWhile_append2 nl_not_word)
  have top: "ms False codeBlockRegex (bt3 @ s1, Map.empty)
      = concat (map g (rev [1..<Suc (length lang)])) @ ms False afterTagRegex (s1, Map.empty)"
    unfolding codeBlockRegex_parts
    by (simp only: ms_Seq_single[OF ms_Chars_prefix] tag_list g_def tw)
  from afterTag_canonical[OF src, of s2 "Map.empty(1 \<mapsto> lang)"] obtain r body where
    a: "ms False afterTagRegex (nl # src @ nl # bt3 @ s2, Map.empty(1 \<mapsto> lang))
          = (s2, Map.empty(1 \<mapsto> lang, 3 \<mapsto> body)) # r" and tb: "trim body = src"
    by blast
  have gl: "g (length lang) = (s2, Map.empty(1 \<mapsto> lang, 3 \<mapsto> body)) # r"
    using a by (simp add: g_def s1_def)
  have m1: "1 \<le> length lang" using lang(1) by (cases lang) auto
  have "\<exists>rest. concat (map g (rev [1..<Suc (length lang)]))
      = (s2, Map.empty(1 \<mapsto> lang, 3 \<mapsto> body)) # rest"
    by (rule concat_map_rev_upt_first[where g = g and m = "length lang" and n = "length lang", OF m1 _ gl])
       auto
  then obtain r2 where "concat (map g (rev [1..<Suc (length lang)]))
      = (s2, Map.empty(1 \<mapsto> lang, 3 \<mapsto> body)) # r2" by blast
  with top have "ms False codeBlockRegex (bt3 @ s1, Map.empty)
      = (s2, Map.empty(1 \<mapsto> lang, 3 \<mapsto> body)) # (r2 @ ms False afterTagRegex (s1, Map.empty))"
    by simp
  with tb show ?thesis unfolding s1_def
    by (intro exI[of _ "Map.empty(1 \<mapsto> lang, 3 \<mapsto> body)"]
              exI[of _ "r2 @ ms False afterTagRegex (lang @ nl # src @ nl # bt3 @ s2, Map.empty)"]
              exI[of _ body]) simp
qed

lemma scan_codes_canonical:
  assumes lang: "lang \<noteq> []" "\<forall>x\<in>set lang. is_word x"
    and src: "trim src = src" "\<not> includes_str bt3 src"
      "\<not> starts_with (''filename='' @ [dq]) src"
  shows "scan_codes (bt3 @ lang @ nl # src @ nl # bt3 @ s2) = src # scan_codes s2"
proof -
  define f where "f = bt3 @ lang @ nl # src @ nl # bt3 @ s2"
  from canonical_first[OF assms, of s2] obtain c' tail body where
    m: "ms False codeBlockRegex (f, Map.empty) = (s2, c') # tail"
    and b: "c' 3 = Some body" "trim body = src"
    unfolding f_def by blast
  have "search False codeBlockRegex f = Some (0, s2, c')"
    using m by (intro search_eqI) simp_all
  moreover have "length s2 < length f" by (simp add: f_def)
  ultimately show ?thesis
    unfolding f_def[symmetric] by (subst scan_codes.simps) (simp add: b)
qed

text \<open>
  A block whose rendering the scan reads back: its language is a word, its content is
  trimmed, holds no marker and does not begin like a \<open>filename\<close> attribute, and its file
  name holds no marker.
\<close>

definition clean_block :: "block \<Rightarrow> bool" where
  "clean_block b =
     (language b \<noteq> [] \<and> (\<forall>x\<in>set (language b). is_word x)
      \<and> trim (code b) = code b
      \<and> \<not> includes_str bt3 (code b)
      \<and> \<not> starts_with (''filename='' @ [dq]) (code b)
      \<and> \<not> includes_str bt3 (filename b))"

lemma sealed_snoc': "sealed u \<Longrightarrow> x \<noteq> bt \<Longrightarrow> sealed (u @ [x])"
  by (rule sealed_snoc) (simp_all add: sealed_def)

lemma sealed_nlnl: "\<not> includes_str bt3 u \<Longrightarrow> sealed (u @ [nl, nl])"
proof -
  assume "\<not> includes_str bt3 u"
  then have "sealed (u @ [nl])" using nl_not_bt by (rule sealed_snoc)
  then have "sealed ((u @ [nl]) @ [nl])" using nl_not_bt by (rule sealed_snoc')
  then show ?thesis by simp
qed

lemma header_sealed:
  assumes "\<not> includes_str bt3 f"
  shows "sealed (''**'' @ f @ ''**'' @ [nl, nl])"
proof -
  have star: "CHR ''*'' \<noteq> bt" by (simp add: bt_def)
  have "sealed [CHR ''*'']" using star by (rule sealed_single)
  then have "sealed ([CHR ''*''] @ [CHR ''*''])" using star by (rule sealed_snoc')
  then have "\<not> includes_str bt3 (([CHR ''*''] @ [CHR ''*'']) @ f)"
    using assms by (rule marker_free_append)
  then have "sealed ((([CHR ''*''] @ [CHR ''*'']) @ f) @ [CHR ''*''])" using star by (rule sealed_snoc)
  then have "sealed (((([CHR ''*''] @ [CHR ''*'']) @ f) @ [CHR ''*'']) @ [CHR ''*''])"
    using star by (rule sealed_snoc')
  then have "sealed ((((([CHR ''*''] @ [CHR ''*'']) @ f) @ [CHR ''*'']) @ [CHR ''*'']) @ [nl])"
    using nl_not_bt by (rule sealed_snoc')
  then have "sealed (((((([CHR ''*''] @ [CHR ''*'']) @ f) @ [CHR ''*'']) @ [CHR ''*'']) @ [nl]) @ [nl])"
    using nl_not_bt by (rule sealed_snoc')
  then show ?thesis by simp
qed

lemma scan_codes_Nil [simp]: "scan_codes [] = []"
  by (rule scan_codes_marker_free) (simp add: bt3_def)

lemma render_scan:
  assumes "\<forall>b\<in>set bs. clean_block b"
    and "\<forall>k\<in>set (code_orders ps). k < length bs"
    and "\<forall>u. TextPart u \<in> set ps \<longrightarrow> \<not> includes_str bt3 u"
  shows "scan_codes (render bs ps) = map (\<lambda>k. code (bs ! k)) (code_orders ps)"
  using assms(2,3)
proof (induction ps)
  case Nil
  then show ?case by simp
next
  case (Cons p rest)
  from Cons.prems have ih: "scan_codes (render bs rest) = map (\<lambda>k. code (bs ! k)) (code_orders rest)"
    by (intro Cons.IH) (cases p; auto)+
  show ?case
  proof (cases p)
    case (TextPart u)
    with Cons.prems(2) have mf: "\<not> includes_str bt3 u" by simp
    show ?thesis
    proof (cases rest)
      case Nil
      with TextPart mf show ?thesis by (simp add: scan_codes_marker_free)
    next
      case (Cons q rest')
      then have "render bs (p # rest) = (u @ [nl, nl]) @ render bs rest"
        using TextPart by (cases q) simp_all
      with scan_codes_skip[OF sealed_nlnl[OF mf]] ih TextPart show ?thesis by simp
    qed
  next
    case (CodePart k)
    with Cons.prems(1) have k: "k < length bs" by simp
    define b where "b = bs ! k"
    from k assms(1) have cb: "clean_block b" by (simp add: b_def)
    define fname where "fname = (if filename b = [] then ''File'' else filename b)"
    define hdr where "hdr = (if fname \<noteq> [] \<and> fname \<noteq> ''File'' \<and> fname \<noteq> ''src/index.ts''
             then ''**'' @ fname @ ''**'' @ [nl, nl] else [])"
    define sep where "sep = (if rest \<noteq> [] then [nl, nl] else [])"
    have r: "render bs (p # rest)
        = hdr @ (bt3 @ language b @ nl # code b @ nl # bt3 @ (sep @ render bs rest))"
      using k by (simp add: CodePart Let_def b_def fname_def hdr_def sep_def)
    have "\<not> includes_str bt3 fname"
      using cb by (simp add: fname_def clean_block_def starts_with_def bt3_def bt_def)
    from header_sealed[OF this] have sh: "sealed hdr" unfolding hdr_def by simp
    have "sealed ([] @ [nl, nl])" by (rule sealed_nlnl) (simp add: bt3_def)
    then have ss: "sealed sep" unfolding sep_def by simp
    have "scan_codes (render bs (p # rest)) = code b # scan_codes (sep @ render bs rest)"
      unfolding r using cb
      by (simp only: scan_codes_skip[OF sh])
         (rule scan_codes_canonical, simp_all add: clean_block_def)
    also have "\<dots> = code b # scan_codes (render bs rest)"
      by (simp only: scan_codes_skip[OF ss])
    finally show ?thesis using ih by (simp add: CodePart b_def)
  qed
qed

lemma render_ends:
  assumes "ps \<noteq> []"
    and "\<forall>k\<in>set (code_orders ps). k < length bs"
    and "\<forall>u. TextPart u \<in> set ps \<longrightarrow> u \<noteq> [] \<and> trim u = u"
  shows "render bs ps \<noteq> [] \<and> \<not> is_space (hd (render bs ps)) \<and> \<not> is_space (last (render bs ps))"
  using assms
proof (induction ps)
  case Nil
  then show ?case by simp
next
  case (Cons p rest)
  define sep where "sep = (if rest \<noteq> [] then [nl, nl] else [])"
  obtain X where X: "render bs (p # rest) = X @ sep @ render bs rest"
    and Xe: "X \<noteq> []" "\<not> is_space (hd X)" "\<not> is_space (last X)"
  proof (cases p)
    case (TextPart u)
    with Cons.prems(3) have u: "u \<noteq> []" "trim u = u" by auto
    from trim_ends[of u] u have "\<not> is_space (hd u)" "\<not> is_space (last u)" by auto
    moreover have "render bs (p # rest) = u @ sep @ render bs rest"
      unfolding sep_def TextPart by (cases rest; cases "hd rest") auto
    ultimately show ?thesis using u(1) that by blast
  next
    case (CodePart k)
    with Cons.prems(2) have k: "k < length bs" by simp
    define b where "b = bs ! k"
    define fname where "fname = (if filename b = [] then ''File'' else filename b)"
    define hdr where "hdr = (if fname \<noteq> [] \<and> fname \<noteq> ''File'' \<and> fname \<noteq> ''src/index.ts''
             then ''**'' @ fname @ ''**'' @ [nl, nl] else [])"
    define Y where "Y = hdr @ bt3 @ language b @ [nl] @ code b @ [nl] @ bt3"
    have r: "render bs (p # rest) = Y @ sep @ render bs rest"
      using k by (simp add: CodePart Let_def b_def fname_def hdr_def sep_def Y_def)
    have "Y \<noteq> []" by (simp add: Y_def bt3_def)
    moreover have "\<not> is_space (hd Y)"
      by (simp add: Y_def hdr_def bt3_def is_space_def bt_def)
    moreover have "last Y = bt" by (simp add: Y_def bt3_def)
    ultimately show ?thesis using r that bt_not_space by metis
  qed
  show ?case
  proof (cases "rest = []")
    case True
    with X Xe show ?thesis by (simp add: sep_def)
  next
    case False
    from Cons.IH[OF False] Cons.prems have
      R: "render bs rest \<noteq> []" "\<not> is_space (last (render bs rest))"
      by (cases p; auto)+
    with X Xe show ?thesis by (simp add: sep_def False)
  qed
qed

text \<open>The groups an expression can set; all others keep their value through a match.\<close>

primrec grps :: "re \<Rightarrow> nat set" where
  "grps (Chars p) = {}"
| "grps (StarG P) = {}"
| "grps (PlusG P) = {}"
| "grps (StarL P) = {}"
| "grps (Opt r) = grps r"
| "grps (Alt a b) = grps a \<union> grps b"
| "grps (Seq a b) = grps a \<union> grps b"
| "grps (Grp n r) = insert n (grps r)"

lemma caps_unchanged:
  "(s', c') \<in> set (ms ci r (s, c)) \<Longrightarrow> k \<notin> grps r \<Longrightarrow> c' k = c k"
proof (induction r arbitrary: s c s' c')
  case (Chars p)
  then show ?case by (simp add: ms_Chars_mem)
next
  case (StarG P)
  then show ?case by (auto simp: ms.simps)
next
  case (PlusG P)
  then show ?case by (auto simp: ms.simps)
next
  case (StarL P)
  then show ?case by (auto simp: ms.simps)
next
  case (Opt r)
  then show ?case by (auto simp: ms.simps)
next
  case (Alt a b)
  then show ?case by (auto simp: ms.simps)
next
  case (Seq a b)
  from Seq.prems(1) obtain y where y: "y \<in> set (ms ci a (s, c))"
    and r: "(s', c') \<in> set (ms ci b y)" unfolding ms_Seq_mem by blast
  obtain sy cy where ye: "y = (sy, cy)" by (cases y)
  from Seq.IH(1)[OF y[unfolded ye]] Seq.IH(2)[OF r[unfolded ye]] Seq.prems(2)
  show ?case by simp
next
  case (Grp n r)
  from Grp.prems(1) obtain c0 where "(s', c0) \<in> set (ms ci r (s, c))"
    and "c' = c0(n \<mapsto> take (length s - length s') s)"
    unfolding ms_Grp_mem by blast
  with Grp.IH[of s' c0 s c] Grp.prems(2) show ?case by simp
qed

lemma grps_afterTag: "1 \<notin> grps afterTagRegex"
  by (simp add: afterTagRegex_def attrRegex_def bodyRegex_def)

lemma tag_capture:
  assumes "(s', c') \<in> set (ms False codeBlockRegex (s, Map.empty))"
  shows "c' 1 = None \<or> (\<exists>w. c' 1 = Some w \<and> w \<noteq> [] \<and> (\<forall>x\<in>set w. is_word x))"
proof -
  from assms obtain y where y: "y \<in> set (ms False (Chars bt3) (s, Map.empty))"
    and r: "(s', c') \<in> set (ms False (Seq (Opt (Grp 1 (PlusG is_word))) afterTagRegex) y)"
    unfolding codeBlockRegex_parts ms_Seq_mem by blast
  obtain s1 c1 where ye: "y = (s1, c1)" by (cases y)
  from y have c1: "c1 = Map.empty" unfolding ye by (simp add: ms_Chars_mem)
  define n where "n = length (takeWhile is_word s1)"
  define g where "g = (\<lambda>m. ms False afterTagRegex (drop m s1, Map.empty(1 \<mapsto> take m s1)))"
  have "ms False (Seq (Opt (Grp 1 (PlusG is_word))) afterTagRegex) (s1, Map.empty)
      = concat (map g (rev [1..<Suc n])) @ ms False afterTagRegex (s1, Map.empty)"
    by (simp only: tag_list g_def n_def)
  with r have dis: "(s', c') \<in> set (concat (map g (rev [1..<Suc n])))
      \<or> (s', c') \<in> set (ms False afterTagRegex (s1, Map.empty))"
    unfolding ye c1 by (simp only: set_append Un_iff)
  from dis show ?thesis
  proof (rule disjE)
    assume el0: "(s', c') \<in> set (ms False afterTagRegex (s1, Map.empty))"
    from caps_unchanged[OF el0 grps_afterTag] show ?thesis by simp
  next
    assume "(s', c') \<in> set (concat (map g (rev [1..<Suc n])))"
    then obtain m where m: "m \<in> set (rev [1..<Suc n])" and el: "(s', c') \<in> set (g m)"
      by (auto simp del: upt_Suc)
    from m have m1: "1 \<le> m" and mn: "m \<le> n" by (auto simp del: upt_Suc)
    from caps_unchanged[OF el[unfolded g_def] grps_afterTag]
    have c: "c' 1 = Some (take m s1)" by simp
    have "takeWhile is_word s1 = take n s1" unfolding n_def by (rule takeWhile_eq_take)
    then have "take m s1 = take m (takeWhile is_word s1)" using mn by (simp add: min_def)
    then have "\<forall>x\<in>set (take m s1). is_word x"
      by (metis in_set_takeD set_takeWhileD)
    moreover have "n \<le> length s1" unfolding n_def by (rule length_takeWhile_le)
    then have "take m s1 \<noteq> []" using m1 mn by auto
    ultimately show ?thesis using c by simp
  qed
qed

lemma typescript_word: "\<forall>x\<in>set ''typescript''. is_word x"
  by (simp add: is_word_def)

lemma language_word:
  assumes "(s', c') \<in> set (ms False codeBlockRegex (s, Map.empty))"
  shows "cap_or c' 1 ''typescript'' \<noteq> [] \<and> (\<forall>x\<in>set (cap_or c' 1 ''typescript''). is_word x)"
  using tag_capture[OF assms] typescript_word
  by (auto simp: cap_or_def)

lemma concat_head:
  "concat xss = v # vs \<Longrightarrow> \<exists>xs\<in>set xss. \<exists>vs'. xs = v # vs'"
proof (induction xss)
  case Nil
  then show ?case by simp
next
  case (Cons xs xss)
  then show ?case by (cases xs) auto
qed

lemma Seq_head:
  assumes "ms ci (Seq a b) st = v # vs"
  shows "\<exists>y\<in>set (ms ci a st). \<exists>vs'. ms ci b y = v # vs'"
  using concat_head[of "map (ms ci b) (ms ci a st)" v vs] assms
  by (auto simp: ms.simps(7))

lemma body_none:
  assumes "index_of bt3 s = None"
  shows "ms False bodyRegex (s, c) = []"
proof (rule ccontr)
  assume "ms False bodyRegex (s, c) \<noteq> []"
  then obtain v where "v \<in> set (ms False bodyRegex (s, c))" by (cases "ms False bodyRegex (s, c)") auto
  then obtain y where y: "y \<in> set (ms False (Grp 3 (StarL any_char)) (s, c))"
    and v: "v \<in> set (ms False (Chars bt3) y)"
    unfolding bodyRegex_def ms_Seq_mem by blast
  obtain sy cy where ye: "y = (sy, cy)" by (cases y)
  from v have sw: "starts_with bt3 sy" unfolding ye by (auto simp: ms_Chars_bt3 split: if_splits)
  from ms_suffix[OF y[unfolded ye]] obtain u where "s = u @ sy" by blast
  with sw have "starts_with bt3 (drop (length u) s)" by simp
  moreover have "length u \<le> length s" using \<open>s = u @ sy\<close> by simp
  ultimately have "includes_str bt3 s" by (auto simp: includes_str_iff)
  with assms show False by (simp add: index_of_None_iff)
qed

lemma body_head:
  assumes "ms False bodyRegex (s, c) = v # vs"
  shows "\<exists>j. index_of bt3 s = Some j \<and> v = (drop (j + 3) s, c(3 \<mapsto> take j s))"
proof (cases "index_of bt3 s")
  case None
  from body_none[OF this, of c] assms show ?thesis by simp
next
  case (Some j)
  from body_first[OF this, of c] assms show ?thesis using Some by auto
qed

lemma match_body_marker_free:
  assumes "ms False codeBlockRegex st = (s', c') # tail"
  shows "\<exists>body. c' 3 = Some body \<and> \<not> includes_str bt3 body"
proof -
  from Seq_head[OF assms[unfolded codeBlockRegex_parts]] obtain y1 t1 where
    "ms False (Seq (Opt (Grp 1 (PlusG is_word))) afterTagRegex) y1 = (s', c') # t1" by blast
  from Seq_head[OF this] obtain y2 t2 where
    "ms False afterTagRegex y2 = (s', c') # t2" by blast
  from Seq_head[OF this[unfolded afterTagRegex_def]] obtain y3 t3 where
    "ms False (Seq (Opt attrRegex) (Seq (Chars [nl]) bodyRegex)) y3 = (s', c') # t3" by blast
  from Seq_head[OF this] obtain y4 t4 where
    "ms False (Seq (Chars [nl]) bodyRegex) y4 = (s', c') # t4" by blast
  from Seq_head[OF this] obtain y5 t5 where
    h: "ms False bodyRegex y5 = (s', c') # t5" by blast
  obtain s5 c5 where ye: "y5 = (s5, c5)" by (cases y5)
  from body_head[OF h[unfolded ye]] obtain j where
    j: "index_of bt3 s5 = Some j" and c: "c' = c5(3 \<mapsto> take j s5)" by auto
  from index_of_split[OF j] have "index_of bt3 (take j s5 @ bt3) = Some (length (take j s5))"
    by simp
  from closed_no_marker[OF this] c show ?thesis by simp
qed

lemma trim_infix: "\<exists>a b. s = a @ trim s @ b"
proof -
  define d where "d = dropWhile is_space s"
  have "rev d = takeWhile is_space (rev d) @ dropWhile is_space (rev d)" by simp
  then have "d = rev (dropWhile is_space (rev d)) @ rev (takeWhile is_space (rev d))"
    by (metis rev_append rev_rev_ident)
  then have "d = trim s @ rev (takeWhile is_space (rev d))" by (simp add: trim_def d_def)
  moreover have "s = takeWhile is_space s @ d" by (simp add: d_def)
  ultimately show ?thesis by metis
qed

lemma includes_str_infix:
  assumes "includes_str bt3 m"
  shows "includes_str bt3 (a @ m @ b)"
proof -
  from assms obtain k where k: "starts_with bt3 (drop k m)" by (auto simp: includes_str_iff)
  from starts_with_bt3_length[OF k] have l: "k + 3 \<le> length m" by simp
  from k obtain r where "drop k m = bt3 @ r" by (auto simp: starts_with_iff)
  then have "drop (length a + k) (a @ m @ b) = bt3 @ r @ b" using l by simp
  then have "starts_with bt3 (drop (length a + k) (a @ m @ b))" by simp
  moreover have "length a + k \<le> length (a @ m @ b)" using l by simp
  ultimately show ?thesis unfolding includes_str_iff by blast
qed

lemma trim_marker_free: "\<not> includes_str bt3 s \<Longrightarrow> \<not> includes_str bt3 (trim s)"
  using trim_infix[of s] includes_str_infix by metis

lemma search_rest_suffix:
  assumes "search ci r s = Some (i, s', c)"
  shows "\<exists>x. s = x @ s'"
proof -
  from search_Some[OF assms] have "(s', c) \<in> set (ms ci r (drop i s, Map.empty))" by auto
  from ms_suffix[OF this] obtain u where "drop i s = u @ s'" by blast
  then have "s = (take i s @ u) @ s'" by (metis append.assoc append_take_drop_id)
  then show ?thesis by blast
qed

lemma exec_parts:
  assumes "exec False codeBlockRegex t li = Some (idx, e, c)"
  shows "\<exists>i tail. search False codeBlockRegex (drop li t) = Some (i, drop e t, c)
           \<and> idx = li + i \<and> li \<le> length t \<and> e \<le> length t
           \<and> ms False codeBlockRegex (drop idx t, Map.empty) = (drop e t, c) # tail"
proof -
  from assms have li: "li \<le> length t" by (auto simp: exec_def split: if_splits)
  from assms obtain i s' where
    sr: "search False codeBlockRegex (drop li t) = Some (i, s', c)" and
    idx: "idx = li + i" and e: "e = length t - length s'"
    by (auto simp: exec_def split: if_splits option.splits)
  from search_rest_suffix[OF sr] obtain x where "drop li t = x @ s'" by blast
  then have "t = (take li t @ x) @ s'" by (metis append.assoc append_take_drop_id)
  then have d: "drop e t = s'" unfolding e by (metis append_eq_conv_conj diff_add_inverse2 length_append)
  from search_Some[OF sr] obtain tail where
    "ms False codeBlockRegex (drop idx t, Map.empty) = (s', c) # tail"
    by (auto simp: idx add.commute)
  with sr idx li d e show ?thesis by auto
qed

lemma fence_codes:
  "li \<le> length t \<Longrightarrow>
   map (\<lambda>(idx, e, c). trim (case c 3 of None \<Rightarrow> [] | Some b \<Rightarrow> b)) (fence_matches t li)
     = scan_codes (drop li t)"
proof (induction t li rule: fence_matches.induct)
  case (1 t li)
  show ?case
  proof (cases "exec False codeBlockRegex t li")
    case None
    with "1.prems" have "search False codeBlockRegex (drop li t) = None"
      by (auto simp: exec_def split: option.splits)
    then have "scan_codes (drop li t) = []" by (subst scan_codes.simps) simp
    with None show ?thesis by (simp add: fence_matches_None)
  next
    case (Some x)
    obtain idx e c where x: "x = (idx, e, c)" by (cases x)
    note ex = Some[unfolded x]
    from exec_codeBlock[OF ex] have adv: "\<not> e \<le> li" and le: "e \<le> length t" by auto
    from exec_parts[OF ex] obtain i where
      sr: "search False codeBlockRegex (drop li t) = Some (i, drop e t, c)" by blast
    from search_codeBlock_shorter[OF sr] have sh: "length (drop e t) < length (drop li t)" by simp
    from "1.IH"[OF ex refl refl adv le] sr sh show ?thesis
      by (subst scan_codes.simps) (simp add: fence_matches_Some[OF ex])
  qed
qed

lemma fence_matches_facts:
  assumes "m \<in> set (fence_matches t li)"
  shows "fst m + 6 \<le> fst (snd m) \<and> fst (snd m) \<le> length t
         \<and> (\<exists>s' tail. ms False codeBlockRegex (drop (fst m) t, Map.empty) = (s', snd (snd m)) # tail)"
  using assms
proof (induction t li rule: fence_matches.induct)
  case (1 t li)
  show ?case
  proof (cases "exec False codeBlockRegex t li")
    case None
    with "1.prems" show ?thesis by (simp add: fence_matches_None)
  next
    case (Some x)
    obtain idx e c where x: "x = (idx, e, c)" by (cases x)
    note ex = Some[unfolded x]
    from exec_codeBlock[OF ex] have b: "idx + 6 \<le> e" "e \<le> length t" "\<not> e \<le> li" by auto
    from "1.prems" have "m = (idx, e, c) \<or> m \<in> set (fence_matches t e)"
      by (simp add: fence_matches_Some[OF ex])
    then show ?thesis
    proof
      assume "m = (idx, e, c)"
      with b exec_parts[OF ex] show ?thesis by auto
    next
      assume "m \<in> set (fence_matches t e)"
      from "1.IH"[OF ex refl refl b(3) this] show ?thesis .
    qed
  qed
qed

lemma block_of_clean:
  assumes m: "m \<in> set (fence_matches t li)"
    and name: "\<not> includes_str bt3 (filename (block_of t k m))"
    and attr: "\<not> starts_with (''filename='' @ [dq]) (code (block_of t k m))"
  shows "clean_block (block_of t k m)"
proof -
  obtain idx e c where me: "m = (idx, e, c)" by (cases m)
  from fence_matches_facts[OF m] obtain s' tail where
    h: "ms False codeBlockRegex (drop idx t, Map.empty) = (s', c) # tail" by (auto simp: me)
  then have el: "(s', c) \<in> set (ms False codeBlockRegex (drop idx t, Map.empty))" by simp
  from match_body_marker_free[OF h] obtain body where
    b: "c 3 = Some body" "\<not> includes_str bt3 body" by blast
  have l: "language (block_of t k m) = cap_or c 1 ''typescript''"
    and cd: "code (block_of t k m) = trim body"
    by (simp_all add: block_of_def me b)
  from language_word[OF el] l cd b(2) name attr show ?thesis
    by (simp add: clean_block_def trim_marker_free)
qed

section \<open>Texts in which every marker opens or closes a fence\<close>

definition marker_offsets :: "string \<Rightarrow> nat list" where
  "marker_offsets t = filter (\<lambda>p. starts_with bt3 (drop p t)) [0..<length t]"

definition well_fenced :: "string \<Rightarrow> bool" where
  "well_fenced t =
     (set (marker_offsets t) \<subseteq> set (concat (map (\<lambda>(idx, e, c). [idx, e - 3]) (fence_matches t 0))))"

lemma well_fencedD:
  assumes "well_fenced t" and "starts_with bt3 (drop p t)"
  shows "\<exists>m\<in>set (fence_matches t 0). p = fst m \<or> p + 3 = fst (snd m)"
proof -
  from starts_with_bt3_length[OF assms(2)] have "p < length t" by simp
  with assms(2) have "p \<in> set (marker_offsets t)" by (simp add: marker_offsets_def)
  with assms(1) obtain m where m: "m \<in> set (fence_matches t 0)"
    and p: "p \<in> set (case m of (idx, e, c) \<Rightarrow> [idx, e - 3])"
    unfolding well_fenced_def by auto
  obtain idx e c where me: "m = (idx, e, c)" by (cases m)
  from fence_matches_facts[OF m] have "idx + 6 \<le> e" by (simp add: me)
  with p have "p = fst m \<or> p + 3 = fst (snd m)" by (auto simp: me)
  with m show ?thesis by (rule_tac bexI[of _ m])
qed

lemma starts_with_take:
  assumes "starts_with bt3 (drop q (take n x))"
  shows "starts_with bt3 (drop q x) \<and> q + 3 \<le> n"
proof -
  from starts_with_bt3_length[OF assms] have l: "q + 3 \<le> n" "q + 3 \<le> length x" by simp_all
  from assms obtain r where "drop q (take n x) = bt3 @ r" by (auto simp: starts_with_iff)
  then have "take 3 (drop q (take n x)) = bt3" by simp
  moreover have "take 3 (drop q (take n x)) = take 3 (drop q x)"
    using l by (simp add: drop_take min_def)
  ultimately have "starts_with bt3 (drop q x)" by (simp add: starts_with_def)
  with l show ?thesis by simp
qed

lemma text_parts_marker_free:
  assumes wf: "well_fenced t"
    and pl: "preserve_loop t n li k = Inr (ps, li')"
    and inv: "fence_matches t 0 = prev @ fence_matches t li" "\<forall>m\<in>set prev. fst (snd m) \<le> li"
    and li: "li \<le> length t"
  shows "(\<forall>u. TextPart u \<in> set ps \<longrightarrow> u \<noteq> [] \<and> trim u = u \<and> \<not> includes_str bt3 u)
         \<and> li' \<le> length t \<and> \<not> includes_str bt3 (drop li' t)"
  using wf pl inv li
proof (induction t n li k arbitrary: ps li' prev rule: preserve_loop.induct)
  case (1 t n li k)
  have span: "fst m + 6 \<le> fst (snd m)" if "m \<in> set (fence_matches t 0)" for m
    using fence_matches_facts[OF that] by simp
  show ?case
  proof (cases "exec False codeBlockRegex t li")
    case None
    with "1.prems"(2) have e: "ps = []" "li' = li"
      by (subst (asm) preserve_loop.simps; simp)+
    from None "1.prems"(3) have all: "fence_matches t 0 = prev" by (simp add: fence_matches_None)
    have "\<not> includes_str bt3 (drop li t)"
    proof
      assume "includes_str bt3 (drop li t)"
      then obtain q where "starts_with bt3 (drop (q + li) t)" by (auto simp: includes_str_iff)
      from well_fencedD[OF "1.prems"(1) this] obtain m where m: "m \<in> set prev"
        and p: "q + li = fst m \<or> q + li + 3 = fst (snd m)" unfolding all by auto
      from m "1.prems"(4) have "fst (snd m) \<le> li" by simp
      moreover from span[of m] m all have "fst m + 6 \<le> fst (snd m)" by simp
      ultimately show False using p by auto
    qed
    with e "1.prems"(5) show ?thesis by simp
  next
    case (Some x)
    obtain idx e c where x: "x = (idx, e, c)" by (cases x)
    note ex = Some[unfolded x]
    from exec_codeBlock[OF ex] have b: "li \<le> idx" "idx + 6 \<le> e" "e \<le> length t" "\<not> e \<le> li"
      by auto
    note fm = fence_matches_Some[OF ex]
    define u where "u = trim (substring t li idx)"
    define p1 where "p1 = (if li < idx \<and> u \<noteq> [] then [TextPart u] else [])"
    define p2 where "p2 = (if k < n then [CodePart k] else [])"
    define k' where "k' = (if k < n then Suc k else k)"
    from "1.prems"(2) obtain ps' where
      pl': "preserve_loop t n e k' = Inr (ps', li')" and ps: "ps = p1 @ p2 @ ps'"
      by (subst (asm) preserve_loop.simps)
         (auto simp: ex b Let_def u_def p1_def p2_def k'_def split: sum.splits)
    have inv1: "fence_matches t 0 = (prev @ [(idx, e, c)]) @ fence_matches t e"
      using "1.prems"(3) fm by simp
    have inv2: "\<forall>m\<in>set (prev @ [(idx, e, c)]). fst (snd m) \<le> e"
      using "1.prems"(4) b by auto
    from "1.IH"[OF ex refl refl refl refl refl refl b(4), folded u_def p1_def p2_def k'_def,
        OF "1.prems"(1) pl' inv1 inv2 b(3)]
    have ih: "(\<forall>u. TextPart u \<in> set ps' \<longrightarrow> u \<noteq> [] \<and> trim u = u \<and> \<not> includes_str bt3 u)
         \<and> li' \<le> length t \<and> \<not> includes_str bt3 (drop li' t)" .
    have gap: "\<not> includes_str bt3 (substring t li idx)"
    proof
      assume "includes_str bt3 (substring t li idx)"
      then obtain q where "starts_with bt3 (drop q (take (idx - li) (drop li t)))"
        by (auto simp: includes_str_iff substring_def)
      from starts_with_take[OF this] have
        sw: "starts_with bt3 (drop (q + li) t)" and q: "q + 3 \<le> idx - li" by simp_all
      from well_fencedD[OF "1.prems"(1) sw] obtain m where m: "m \<in> set (fence_matches t 0)"
        and p: "q + li = fst m \<or> q + li + 3 = fst (snd m)" by auto
      from m consider "m \<in> set prev" | "m = (idx, e, c)" | "m \<in> set (fence_matches t e)"
        unfolding inv1 by auto
      then show False
      proof cases
        case 1
        with "1.prems"(4) have "fst (snd m) \<le> li" by simp
        with span[OF m] p show False by auto
      next
        case 2
        with p q b show False by auto
      next
        case 3
        from fence_matches_lower[OF 3] span[OF m] p q b show False by auto
      qed
    qed
    have "u \<noteq> [] \<longrightarrow> trim u = u \<and> \<not> includes_str bt3 u"
      unfolding u_def using gap by (simp add: trim_marker_free)
    with ih show ?thesis unfolding ps p1_def p2_def by auto
  qed
qed

section \<open>The scan of the explanation\<close>

lemma well_fenced_no_match:
  assumes "well_fenced t" and "fence_matches t 0 = []"
  shows "\<not> includes_str bt3 t"
proof
  assume "includes_str bt3 t"
  then obtain q where "starts_with bt3 (drop q t)" by (auto simp: includes_str_iff)
  from well_fencedD[OF assms(1) this] assms(2) show False by simp
qed

lemma code_block_of:
  "code (block_of t j m) = (case m of (idx, e, c) \<Rightarrow> trim (case c 3 of None \<Rightarrow> [] | Some b \<Rightarrow> b))"
  by (cases m) (simp add: block_of_def split: option.splits)

lemma scan_blocks_codes:
  "map code (map (\<lambda>(j, m). block_of t j m) (enumerate k xs))
     = map (\<lambda>(idx, e, c). trim (case c 3 of None \<Rightarrow> [] | Some b \<Rightarrow> b)) xs"
proof -
  have "map code (map (\<lambda>(j, m). block_of t j m) (enumerate k xs))
      = map ((\<lambda>(idx, e, c). trim (case c 3 of None \<Rightarrow> [] | Some b \<Rightarrow> b)) \<circ> snd) (enumerate k xs)"
    by (simp add: comp_def case_prod_unfold code_block_of)
  also have "\<dots> = map (\<lambda>(idx, e, c). trim (case c 3 of None \<Rightarrow> [] | Some b \<Rightarrow> b)) (map snd (enumerate k xs))"
    by (simp only: map_map)
  finally show ?thesis by simp
qed

lemma extractCodeBlocks_codes:
  assumes "fence_matches t 0 \<noteq> []"
  shows "\<exists>bs. extractCodeBlocks t = Inr bs \<and> map code bs = scan_codes t
              \<and> bs = map (\<lambda>(j, m). block_of t j m) (enumerate 0 (fence_matches t 0))"
proof -
  define bs where "bs = map (\<lambda>(j, m). block_of t j m) (enumerate 0 (fence_matches t 0))"
  have "length bs = length (fence_matches t 0)" by (simp add: bs_def)
  with assms have ne: "bs \<noteq> []" by auto
  have "extractCodeBlocks_loop t 0 0 = Inr bs" by (simp add: loop_blocks bs_def)
  with ne have e: "extractCodeBlocks t = Inr bs" by (simp add: extractCodeBlocks_def)
  have "map code bs = scan_codes (drop 0 t)"
    unfolding bs_def scan_blocks_codes by (rule fence_codes) simp
  with e show ?thesis by (simp add: bs_def)
qed

lemma scan_codes_no_match:
  assumes "fence_matches t 0 = []"
  shows "scan_codes t = []"
  using fence_codes[of 0 t] assms by simp

lemma explanation_scan:
  assumes wf: "well_fenced t"
    and ne: "fence_matches t 0 \<noteq> []"
    and bs: "bs = map (\<lambda>(j, m). block_of t j m) (enumerate 0 (fence_matches t 0))"
    and names: "\<forall>b\<in>set bs. \<not> includes_str bt3 (filename b)"
    and attr: "\<forall>b\<in>set bs. \<not> starts_with (''filename='' @ [dq]) (code b)"
  shows "\<exists>expl. preserveOrderedContent t bs = Inr expl \<and> scan_codes expl = map code bs"
proof -
  have len: "length bs = length (fence_matches t 0)" by (simp add: bs)
  with ne have bne: "bs \<noteq> []" by auto
  have clean: "\<forall>b\<in>set bs. clean_block b"
  proof
    fix b assume b: "b \<in> set bs"
    then obtain j m where jm: "(j, m) \<in> set (enumerate 0 (fence_matches t 0))"
      and be: "b = block_of t j m" unfolding bs by auto
    from jm have m: "m \<in> set (fence_matches t 0)" by (auto simp: in_set_enumerate_eq)
    from names attr b have "\<not> includes_str bt3 (filename (block_of t j m))"
      "\<not> starts_with (''filename='' @ [dq]) (code (block_of t j m))"
      unfolding be by auto
    from block_of_clean[OF m this] show "clean_block b" unfolding be .
  qed
  obtain ps li' where pl: "preserve_loop t (length bs) 0 0 = Inr (ps, li')"
    using preserve_loop_total by blast
  from preserve_loop_codes[OF pl] len have co: "code_orders ps = [0..<length bs]" by simp
  have tp: "(\<forall>u. TextPart u \<in> set ps \<longrightarrow> u \<noteq> [] \<and> trim u = u \<and> \<not> includes_str bt3 u)
         \<and> li' \<le> length t \<and> \<not> includes_str bt3 (drop li' t)"
    by (rule text_parts_marker_free[OF wf pl, of "[]"]) simp_all
  define rem where "rem = trim (drop li' t)"
  define parts where "parts = ps @ (if li' < length t \<and> rem \<noteq> [] then [TextPart rem] else [])"
  have remf: "\<not> includes_str bt3 rem" "trim rem = rem"
    using tp by (simp_all add: rem_def trim_marker_free trim_idem)
  have cop: "code_orders parts = [0..<length bs]" by (simp add: parts_def co)
  have pne: "parts \<noteq> []"
  proof
    assume "parts = []"
    then have "length (code_orders parts) = 0" by simp
    then have "length bs = 0" unfolding cop by simp
    with bne show False by simp
  qed
  have inb: "\<forall>k\<in>set (code_orders parts). k < length bs" by (simp add: cop)
  have tps: "\<forall>u. TextPart u \<in> set parts \<longrightarrow> u \<noteq> [] \<and> trim u = u \<and> \<not> includes_str bt3 u"
    using tp remf by (auto simp: parts_def)
  then have tps1: "\<forall>u. TextPart u \<in> set parts \<longrightarrow> u \<noteq> [] \<and> trim u = u"
    and tps2: "\<forall>u. TextPart u \<in> set parts \<longrightarrow> \<not> includes_str bt3 u" by blast+
  from render_ends[OF pne inb tps1] have tr: "trim (render bs parts) = render bs parts"
    by (intro trim_fixed) simp_all
  have "preserveOrderedContent t bs = Inr (trim (render bs parts))"
    using bne pl by (simp add: preserveOrderedContent_def Let_def parts_def rem_def)
  then have p: "preserveOrderedContent t bs = Inr (render bs parts)"
    by (simp only: tr)
  have "scan_codes (render bs parts) = map (\<lambda>k. code (bs ! k)) [0..<length bs]"
    using render_scan[OF clean inb tps2] by (simp add: cop)
  also have "\<dots> = map code bs" by (rule nth_equalityI) simp_all
  finally show ?thesis using p by simp
qed

section \<open>The round trip of the contents through the explanation\<close>

text \<open>
  Two texts: one with an explicit file name and a second fence after some prose, and one
  whose fence carries an explicit file name and whose content begins with a line of the
  form of the attribute.
\<close>

definition sample_roundtrip :: string where
  "sample_roundtrip =
     ''See'' @ [nl] @ bt3 @ ''ts filename='' @ [dq] @ ''a.ts'' @ [dq, nl] @ ''let a;'' @ [nl] @ bt3
     @ [nl] @ ''and'' @ [nl] @ bt3 @ ''js'' @ [nl] @ ''x'' @ [nl] @ bt3"

definition sample_attribute_line :: string where
  "sample_attribute_line =
     bt3 @ ''ts filename='' @ [dq] @ ''a.ts'' @ [dq, nl]
     @ ''filename='' @ [dq] @ ''b'' @ [dq, nl] @ ''y'' @ [nl] @ bt3"

text \<open>
  Claim C9.  Let every fence marker of the text open or close a fenced block found by the
  scan, let no file name of an artifact contain a marker, and let no content of an artifact
  begin with \<^verbatim>\<open>filename="\<close>.  Then the extraction run on the explanation of a first
  extraction returns, with the same number of artifacts, and the contents of its artifacts
  are, in order, the contents of the artifacts of the first extraction.
\<close>

theorem explanation_roundtrip:
  assumes wf: "well_fenced t"
    and ex: "extract_text t = Inr r"
    and names: "\<forall>b\<in>set (artifacts r). \<not> includes_str bt3 (filename b)"
    and attr: "\<forall>b\<in>set (artifacts r). \<not> starts_with (''filename='' @ [dq]) (code b)"
  shows "\<exists>r'. extract_text (explanation r) = Inr r'
              \<and> length (artifacts r') = length (artifacts r)
              \<and> map code (artifacts r') = map code (artifacts r)"
proof -
  from ex obtain bs expl where e1: "extractCodeBlocks t = Inr bs"
    and p1: "preserveOrderedContent t bs = Inr expl"
    and r: "artifacts r = bs" "explanation r = expl"
    by (auto simp: extract_text_def Let_def split: sum.splits)
  have "\<exists>bs'. extractCodeBlocks expl = Inr bs' \<and> map code bs' = map code bs"
  proof (cases "fence_matches t 0 = []")
    case True
    from well_fenced_no_match[OF wf True] have nm: "\<not> includes_str bt3 t" .
    from extractCodeBlocks_no_fence[OF nm] e1 have b: "bs = []" by simp
    with p1 have "expl = trim t" by (simp add: preserveOrderedContent_def)
    with nm have "\<not> includes_str bt3 expl" by (simp add: trim_marker_free)
    from extractCodeBlocks_no_fence[OF this] b show ?thesis by simp
  next
    case False
    from extractCodeBlocks_codes[OF False] e1 have
      bs: "bs = map (\<lambda>(j, m). block_of t j m) (enumerate 0 (fence_matches t 0))" by auto
    then have "length bs = length (fence_matches t 0)" by simp
    with False have bne: "bs \<noteq> []" by auto
    from explanation_scan[OF wf False bs] names attr p1 r
    have sc: "scan_codes expl = map code bs" by auto
    have "fence_matches expl 0 \<noteq> []"
    proof
      assume "fence_matches expl 0 = []"
      from scan_codes_no_match[OF this] sc bne show False by simp
    qed
    from extractCodeBlocks_codes[OF this] sc show ?thesis by auto
  qed
  then obtain bs' where e2: "extractCodeBlocks expl = Inr bs'" and c: "map code bs' = map code bs"
    by blast
  obtain x where "preserveOrderedContent expl bs' = Inr x"
    using preserveOrderedContent_total by blast
  with e2 have "extract_text expl =
      Inr \<lparr>artifacts = bs', configText = extractConfig expl, explanation = x\<rparr>"
    by (simp add: extract_text_def Let_def)
  moreover from c have "length bs' = length bs" by (rule map_eq_imp_length_eq)
  ultimately show ?thesis using c r by simp
qed

text \<open>
  Claim C9 at \<open>sample_roundtrip\<close>: the three conditions hold, and the extraction from the
  explanation gives the contents \<open>let a;\<close> and \<open>x\<close> again.
\<close>

theorem explanation_roundtrip_witness:
  "well_fenced sample_roundtrip
   \<and> map_sum id (\<lambda>r. map filename (artifacts r)) (extract_text sample_roundtrip) = Inr [''a.ts'', []]
   \<and> map_sum id (\<lambda>r. map code (artifacts r)) (extract_text sample_roundtrip) = Inr [''let a;'', ''x'']
   \<and> (\<exists>r r'. extract_text sample_roundtrip = Inr r
          \<and> extract_text (explanation r) = Inr r'
          \<and> map code (artifacts r') = [''let a;'', ''x''])"
proof -
  have wf: "well_fenced sample_roundtrip" by code_simp
  have fn: "map_sum id (\<lambda>r. map filename (artifacts r)) (extract_text sample_roundtrip) = Inr [''a.ts'', []]"
    by code_simp
  have cd: "map_sum id (\<lambda>r. map code (artifacts r)) (extract_text sample_roundtrip) = Inr [''let a;'', ''x'']"
    by code_simp
  from fn obtain r where r: "extract_text sample_roundtrip = Inr r"
    by (cases "extract_text sample_roundtrip") auto
  from fn cd r have f: "map filename (artifacts r) = [''a.ts'', []]"
    and c: "map code (artifacts r) = [''let a;'', ''x'']" by simp_all
  have names: "\<forall>b\<in>set (artifacts r). \<not> includes_str bt3 (filename b)"
  proof
    fix b assume "b \<in> set (artifacts r)"
    then have "filename b \<in> set (map filename (artifacts r))" by simp
    then have "filename b = ''a.ts'' \<or> filename b = []" unfolding f by simp
    moreover have "\<not> includes_str bt3 ''a.ts''" by code_simp
    moreover have "\<not> includes_str bt3 []" by code_simp
    ultimately show "\<not> includes_str bt3 (filename b)" by auto
  qed
  have attr: "\<forall>b\<in>set (artifacts r). \<not> starts_with (''filename='' @ [dq]) (code b)"
  proof
    fix b assume "b \<in> set (artifacts r)"
    then have "code b \<in> set (map code (artifacts r))" by simp
    then have "code b = ''let a;'' \<or> code b = ''x''" unfolding c by simp
    moreover have "\<not> starts_with (''filename='' @ [dq]) ''let a;''" by code_simp
    moreover have "\<not> starts_with (''filename='' @ [dq]) ''x''" by code_simp
    ultimately show "\<not> starts_with (''filename='' @ [dq]) (code b)" by auto
  qed
  from explanation_roundtrip[OF wf r names attr] obtain r' where
    "extract_text (explanation r) = Inr r'" "map code (artifacts r') = map code (artifacts r)"
    by blast
  with r c have "\<exists>r r'. extract_text sample_roundtrip = Inr r
          \<and> extract_text (explanation r) = Inr r'
          \<and> map code (artifacts r') = [''let a;'', ''x'']" by auto
  with wf fn cd show ?thesis by simp
qed

text \<open>
  Claim C9 without the condition on the beginning of the contents, at
  \<open>sample_attribute_line\<close>: every marker opens or closes the one fenced block and the file
  name is the explicit \<open>a.ts\<close>, the content is the attribute-like line followed by \<open>y\<close>;
  the explanation fences that content after the language tag alone, so the second
  extraction reads the first line of the content as the attribute and returns the content
  \<open>y\<close>.
\<close>

theorem explanation_roundtrip_counterexample:
  "well_fenced sample_attribute_line
   \<and> map_sum id (\<lambda>r. map filename (artifacts r)) (extract_text sample_attribute_line) = Inr [''a.ts'']
   \<and> map_sum id (\<lambda>r. map code (artifacts r)) (extract_text sample_attribute_line)
       = Inr [''filename='' @ [dq] @ ''b'' @ [dq, nl] @ ''y'']
   \<and> map_sum id explanation (extract_text sample_attribute_line)
       = Inr (''**a.ts**'' @ [nl, nl] @ bt3 @ ''ts'' @ [nl]
              @ ''filename='' @ [dq] @ ''b'' @ [dq, nl] @ ''y'' @ [nl] @ bt3)
   \<and> (case extract_text sample_attribute_line of
         Inl err \<Rightarrow> Inl err
       | Inr r \<Rightarrow> map_sum id (\<lambda>r'. map code (artifacts r')) (extract_text (explanation r)))
       = Inr [''y'']"
  by code_simp

end
